theory Spec2Isabelle
  imports Main "HOL-Library.Multiset" "HOL-Library.Word"
begin

section \<open>Values of the JavaScript runtime\<close>

text \<open>
  A JavaScript string is written as the bytes of its UTF-8 encoding, one \<open>char\<close> per
  byte, as string literals of Isabelle are. A \<^verbatim>\<open>Buffer\<close> is a list of bytes. A number
  that is used as an offset is a natural number or \<^verbatim>\<open>NaN\<close>; \<^verbatim>\<open>undefined\<close>, read
  from beyond the end of a buffer, turns into \<^verbatim>\<open>NaN\<close> in every sum it enters.
\<close>

type_synonym byte = "8 word"

type_synonym number = "nat option"

definition plus :: "number \<Rightarrow> number \<Rightarrow> number" where
  "plus a b = (case a of None \<Rightarrow> None | Some x \<Rightarrow> (case b of None \<Rightarrow> None | Some y \<Rightarrow> Some (x + y)))"

text \<open>\<^verbatim>\<open>data[offset]\<close>: the byte as a number, or \<^verbatim>\<open>undefined\<close> when there is none.\<close>

definition at :: "byte list \<Rightarrow> number \<Rightarrow> number" where
  "at data offset =
     (case offset of
        None \<Rightarrow> None
      | Some i \<Rightarrow> if i < length data then Some (unat (data ! i)) else None)"

text \<open>
  \<^verbatim>\<open>data.slice(start, end)\<close> for bounds that are not negative: \<^verbatim>\<open>NaN\<close> counts as
  zero, both bounds are clamped to the length, and nothing is ever raised.
\<close>

definition toInteger :: "number \<Rightarrow> nat" where
  "toInteger n = (case n of None \<Rightarrow> 0 | Some k \<Rightarrow> k)"

definition slice :: "'a list \<Rightarrow> number \<Rightarrow> number \<Rightarrow> 'a list" where
  "slice data start end = drop (toInteger start) (take (toInteger end) data)"

subsection \<open>Strings\<close>

definition startsWith :: "string \<Rightarrow> string \<Rightarrow> bool" where
  "startsWith s search \<longleftrightarrow> take (length search) s = search"

definition endsWith :: "string \<Rightarrow> string \<Rightarrow> bool" where
  "endsWith s suffix \<longleftrightarrow>
     length suffix \<le> length s \<and> drop (length s - length suffix) s = suffix"

text \<open>\<^verbatim>\<open>s.replace(pattern, replacement)\<close> with a string pattern: the first occurrence only.\<close>

fun replace :: "string \<Rightarrow> string \<Rightarrow> string \<Rightarrow> string" where
  "replace [] pattern replacement = (if pattern = [] then replacement else [])"
| "replace (c # s) pattern replacement =
     (if startsWith (c # s) pattern then replacement @ drop (length pattern) (c # s)
      else c # replace s pattern replacement)"

text \<open>
  \<^verbatim>\<open>s.trim()\<close> removes white space and line terminators from both ends. These are
  their UTF-8 encodings: U+0009 to U+000D, U+0020, U+00A0, U+1680, U+2000 to U+200A,
  U+2028, U+2029, U+202F, U+205F, U+3000 and U+FEFF.
\<close>

definition whiteSpace :: "string list" where
  "whiteSpace =
     [[CHR 0x09], [CHR 0x0A], [CHR 0x0B], [CHR 0x0C], [CHR 0x0D], [CHR 0x20],
      [CHR 0xC2, CHR 0xA0], [CHR 0xE1, CHR 0x9A, CHR 0x80], [CHR 0xE2, CHR 0x80, CHR 0x80],
      [CHR 0xE2, CHR 0x80, CHR 0x81], [CHR 0xE2, CHR 0x80, CHR 0x82],
      [CHR 0xE2, CHR 0x80, CHR 0x83], [CHR 0xE2, CHR 0x80, CHR 0x84],
      [CHR 0xE2, CHR 0x80, CHR 0x85], [CHR 0xE2, CHR 0x80, CHR 0x86],
      [CHR 0xE2, CHR 0x80, CHR 0x87], [CHR 0xE2, CHR 0x80, CHR 0x88],
      [CHR 0xE2, CHR 0x80, CHR 0x89], [CHR 0xE2, CHR 0x80, CHR 0x8A],
      [CHR 0xE2, CHR 0x80, CHR 0xA8], [CHR 0xE2, CHR 0x80, CHR 0xA9],
      [CHR 0xE2, CHR 0x80, CHR 0xAF], [CHR 0xE2, CHR 0x81, CHR 0x9F],
      [CHR 0xE3, CHR 0x80, CHR 0x80], [CHR 0xEF, CHR 0xBB, CHR 0xBF]]"

function trimStart :: "string \<Rightarrow> string" where
  "trimStart s =
     (case find (startsWith s) whiteSpace of
        None \<Rightarrow> s
      | Some w \<Rightarrow> trimStart (drop (length w) s))"
  by pat_completeness auto
termination
proof (relation "measure length")
  show "wf (measure (length :: string \<Rightarrow> nat))" by simp
next
  fix s w
  assume "find (startsWith s) whiteSpace = Some w"
  then have "w \<in> set whiteSpace" and "startsWith s w"
    by (auto simp: find_Some_iff)
  moreover have "[] \<notin> set whiteSpace"
    by (simp add: whiteSpace_def)
  ultimately have "w \<noteq> []" and "take (length w) s = w"
    by (auto simp: startsWith_def)
  then have "s \<noteq> []" by auto
  with \<open>w \<noteq> []\<close> show "(drop (length w) s, s) \<in> measure length" by simp
qed

declare trimStart.simps [simp del]

function trimEnd :: "string \<Rightarrow> string" where
  "trimEnd s =
     (case find (endsWith s) whiteSpace of
        None \<Rightarrow> s
      | Some w \<Rightarrow> trimEnd (take (length s - length w) s))"
  by pat_completeness auto
termination
proof (relation "measure length")
  show "wf (measure (length :: string \<Rightarrow> nat))" by simp
next
  fix s w
  assume "find (endsWith s) whiteSpace = Some w"
  then have "w \<in> set whiteSpace" and "endsWith s w"
    by (auto simp: find_Some_iff)
  moreover have "[] \<notin> set whiteSpace"
    by (simp add: whiteSpace_def)
  ultimately have "w \<noteq> []" and "length w \<le> length s"
    by (auto simp: endsWith_def)
  then have "s \<noteq> []" by auto
  with \<open>w \<noteq> []\<close> show "(take (length s - length w) s, s) \<in> measure length" by simp
qed

declare trimEnd.simps [simp del]

definition trim :: "string \<Rightarrow> string" where
  "trim s = trimEnd (trimStart s)"

subsection \<open>\<^verbatim>\<open>Buffer.from(data, "base64")\<close>\<close>

text \<open>
  The decoder of the runtime reads the standard and the URL-safe alphabet, skips every
  other character, stops at the first \<^verbatim>\<open>=\<close>, and turns each group of four characters
  into three bytes (a last group of three into two bytes, of two into one). It never raises.
  The model holds for data whose characters lie at or below U+00FF, which the decoder skips
  unless they are of the alphabet. Of a character above U+00FF the runtime reads the low
  byte of its code unit, which may be of the alphabet, whereas the model skips it: data
  with such a character is outside the model.
\<close>

definition base64Value :: "char \<Rightarrow> nat option" where
  "base64Value ch =
     (let c = of_char ch :: nat
      in if 65 \<le> c \<and> c \<le> 90 then Some (c - 65)
         else if 97 \<le> c \<and> c \<le> 122 then Some (c - 71)
         else if 48 \<le> c \<and> c \<le> 57 then Some (c + 4)
         else if c = 43 \<or> c = 45 then Some 62
         else if c = 47 \<or> c = 95 then Some 63
         else None)"

fun base64Groups :: "nat list \<Rightarrow> byte list" where
  "base64Groups (a # b # c # d # rest) =
     [of_nat (a * 4 + b div 16), of_nat ((b mod 16) * 16 + c div 4), of_nat ((c mod 4) * 64 + d)]
     @ base64Groups rest"
| "base64Groups [a, b, c] = [of_nat (a * 4 + b div 16), of_nat ((b mod 16) * 16 + c div 4)]"
| "base64Groups [a, b] = [of_nat (a * 4 + b div 16)]"
| "base64Groups [a] = []"
| "base64Groups [] = []"

definition base64Decode :: "string \<Rightarrow> byte list" where
  "base64Decode data =
     base64Groups (List.map_filter base64Value (takeWhile (\<lambda>c. c \<noteq> CHR ''='') data))"

subsection \<open>\<^verbatim>\<open>new TextDecoder("utf-8").decode(bytes)\<close>\<close>

text \<open>
  The decoder copies every well-formed UTF-8 sequence, puts U+FFFD in the place of each
  maximal ill-formed part, and, as the \<^verbatim>\<open>ignoreBOM\<close> option is not set, drops a byte
  order mark U+FEFF at the very start. It never raises (the \<^verbatim>\<open>fatal\<close> option is not set).
\<close>

definition inRange :: "nat \<Rightarrow> nat \<Rightarrow> byte \<Rightarrow> bool" where
  "inRange lo hi b \<longleftrightarrow> lo \<le> unat b \<and> unat b \<le> hi"

definition replacementChar :: "byte list" where
  "replacementChar = [0xEF, 0xBF, 0xBD]"

text \<open>The bounds of the first continuation byte, which depend on the lead byte.\<close>

definition lowerBoundary :: "byte \<Rightarrow> nat" where
  "lowerBoundary b = (if b = 0xE0 then 0xA0 else if b = 0xF0 then 0x90 else 0x80)"

definition upperBoundary :: "byte \<Rightarrow> nat" where
  "upperBoundary b = (if b = 0xED then 0x9F else if b = 0xF4 then 0x8F else 0xBF)"

fun utf8Decode :: "byte list \<Rightarrow> byte list" where
  "utf8Decode [] = []"
| "utf8Decode (b # rest) =
     (if inRange 0x00 0x7F b then b # utf8Decode rest
      else if inRange 0xC2 0xDF b then
        (case rest of
           [] \<Rightarrow> replacementChar
         | c1 # r1 \<Rightarrow>
             if inRange 0x80 0xBF c1 then b # c1 # utf8Decode r1
             else replacementChar @ utf8Decode rest)
      else if inRange 0xE0 0xEF b then
        (case rest of
           [] \<Rightarrow> replacementChar
         | c1 # r1 \<Rightarrow>
             if inRange (lowerBoundary b) (upperBoundary b) c1 then
               (case r1 of
                  [] \<Rightarrow> replacementChar
                | c2 # r2 \<Rightarrow>
                    if inRange 0x80 0xBF c2 then b # c1 # c2 # utf8Decode r2
                    else replacementChar @ utf8Decode r1)
             else replacementChar @ utf8Decode rest)
      else if inRange 0xF0 0xF4 b then
        (case rest of
           [] \<Rightarrow> replacementChar
         | c1 # r1 \<Rightarrow>
             if inRange (lowerBoundary b) (upperBoundary b) c1 then
               (case r1 of
                  [] \<Rightarrow> replacementChar
                | c2 # r2 \<Rightarrow>
                    if inRange 0x80 0xBF c2 then
                      (case r2 of
                         [] \<Rightarrow> replacementChar
                       | c3 # r3 \<Rightarrow>
                           if inRange 0x80 0xBF c3 then b # c1 # c2 # c3 # utf8Decode r3
                           else replacementChar @ utf8Decode r2)
                    else replacementChar @ utf8Decode r1)
             else replacementChar @ utf8Decode rest)
      else replacementChar @ utf8Decode rest)"

definition byteOrderMark :: "byte list" where
  "byteOrderMark = [0xEF, 0xBB, 0xBF]"

definition TextDecoder_decode :: "byte list \<Rightarrow> string" where
  "TextDecoder_decode bytes =
     map (\<lambda>b. char_of (unat b))
       (if take 3 bytes = byteOrderMark then utf8Decode (drop 3 bytes) else utf8Decode bytes)"

subsection \<open>\<^verbatim>\<open>bs58.encode(bytes)\<close>\<close>

text \<open>
  Base58 with the Bitcoin alphabet: a \<open>1\<close> for each leading zero byte, then the digits
  of the bytes read as one big-endian number (no digit for zero).
\<close>

definition ALPHABET :: string where
  "ALPHABET = ''123456789ABCDEFGHJKLMNPQRSTUVWXYZabcdefghijkmnopqrstuvwxyz''"

function base58Digits :: "nat \<Rightarrow> string" where
  "base58Digits n = (if n = 0 then [] else base58Digits (n div 58) @ [ALPHABET ! (n mod 58)])"
  by pat_completeness auto
termination
  by (relation "measure id") auto

declare base58Digits.simps [simp del]

definition bs58_encode :: "byte list \<Rightarrow> string" where
  "bs58_encode source =
     replicate (length (takeWhile (\<lambda>b. b = 0) source)) (CHR ''1'')
     @ base58Digits (foldl (\<lambda>acc b. acc * 256 + unat b) 0 source)"

section \<open>The event decoder (MintUtils.ts)\<close>

text \<open>The fields of class \<^verbatim>\<open>Mint\<close> (lines 6-21).\<close>

record Mint =
  name :: string
  symbol :: string
  uri :: string
  mintAddress :: string
  bondingCurve :: string
  user :: string

text \<open>
  Lines 47-56. The length is the single byte at the offset; the offset then moves past
  the four bytes of the length field and past the string.
\<close>

definition readLengthPrefixedString :: "byte list \<Rightarrow> number \<Rightarrow> string \<times> number" where
  "readLengthPrefixedString data offset =
     (let len = at data offset;
          offset = plus offset (Some 4);
          stringData = TextDecoder_decode (slice data offset (plus offset len));
          offset = plus offset len
      in (stringData, offset))"

text \<open>
  Lines 42-96. No statement of \<^verbatim>\<open>decodeMint\<close> raises: the base64 decoder skips what
  it does not know, \<^verbatim>\<open>slice\<close> clamps its bounds, the text decoder replaces ill-formed
  bytes, and \<^verbatim>\<open>bs58.encode\<close> takes any bytes. The function returns a \<^verbatim>\<open>Mint\<close>
  for every argument.
\<close>

definition decodeMint :: "string \<Rightarrow> Mint" where
  "decodeMint data =
     (let decoded = base64Decode data;
          offset = Some 0;
          program = bs58_encode (slice decoded offset (plus offset (Some 8)));
          offset = plus offset (Some 8);
          (name, offset) = readLengthPrefixedString decoded offset;
          (symbol, offset) = readLengthPrefixedString decoded offset;
          (uri, offset) = readLengthPrefixedString decoded offset;
          mint = bs58_encode (slice decoded offset (plus offset (Some 32)));
          offset = plus offset (Some 32);
          bondingCurve = bs58_encode (slice decoded offset (plus offset (Some 32)));
          offset = plus offset (Some 32);
          user = bs58_encode (slice decoded offset (plus offset (Some 32)))
      in \<lparr>name = name, symbol = symbol, uri = uri,
          mintAddress = mint, bondingCurve = bondingCurve, user = user\<rparr>)"

definition dataPrefix :: string where
  "dataPrefix = ''Program data: G3KpTd7rY3''"

definition programSuccessLine :: string where
  "programSuccessLine = ''Program 6EF8rrecthR5Dkzon8Nwu78hRvfCKubJ14M5uBEwF6P success''"

text \<open>
  Lines 98-121. The loop returns at the first success line whose next line is not empty
  and starts with the data prefix. The \<^verbatim>\<open>catch\<close> of line 112 returns \<^verbatim>\<open>null\<close>, but
  \<^verbatim>\<open>decodeMint\<close> raises nothing for it to catch.
\<close>

fun processMintLog :: "string list \<Rightarrow> Mint option" where
  "processMintLog [] = None"
| "processMintLog [line] = None"
| "processMintLog (line # nextLine # logs) =
     (if line = programSuccessLine \<and> nextLine \<noteq> [] \<and> startsWith nextLine dataPrefix
      then Some (decodeMint (trim (replace nextLine ''Program data: '' '''')))
      else processMintLog (nextLine # logs))"

section \<open>Outcomes of one signature (pumpfinder.ts, lines 25-73)\<close>

text \<open>
  A timestamp of the program is always the result of \<^verbatim>\<open>new Date(ms).toISOString()\<close>
  (line 55) and is only ever read back through \<^verbatim>\<open>new Date(ts).getTime()\<close>
  (lines 156, 157, 188, 189), which returns \<^verbatim>\<open>ms\<close> again. Such a string is
  modelled by the time value it denotes, in milliseconds since the epoch. It is never
  the empty string, so the truthiness test of line 185 holds for every present timestamp.
\<close>

type_synonym iso_timestamp = int

record ResolvedTx =
  signature :: string
  tokenAddress :: string
  timestamp :: "iso_timestamp option"

text \<open>The union type of lines 25-32: the object, \<^verbatim>\<open>{ skipped: true }\<close>, or \<^verbatim>\<open>null\<close>.\<close>

datatype ExtractedResult = Resolved ResolvedTx | Skipped | Null

text \<open>
  What \<^verbatim>\<open>connection.getParsedTransaction\<close> gives for one call: it raises, or it
  returns \<^verbatim>\<open>null\<close> or a transaction, whose \<^verbatim>\<open>meta\<close>, log messages and block time
  (an integer number of seconds) may each be missing.
\<close>

record TransactionMeta =
  logMessages :: "string list option"

record ParsedTransaction =
  meta :: "TransactionMeta option"
  blockTime :: "int option"

datatype RpcReply = Raises | Returns "ParsedTransaction option"

datatype Error = RangeError

text \<open>
  \<^verbatim>\<open>new Date(ms).toISOString()\<close>: a time value beyond 8.64e15 milliseconds on either
  side of the epoch is no date, and \<^verbatim>\<open>toISOString\<close> raises a \<^verbatim>\<open>RangeError\<close> for it.
\<close>

definition toISOString :: "int \<Rightarrow> Error + iso_timestamp" where
  "toISOString ms = (if \<bar>ms\<bar> \<le> 8640000000000000 then Inr ms else Inl RangeError)"

text \<open>
  Lines 54-56: the block time is tested for truthiness, so the number zero counts like a
  missing one.
\<close>

definition formatBlockTime :: "int option \<Rightarrow> Error + iso_timestamp option" where
  "formatBlockTime seconds =
     (case seconds of
        None \<Rightarrow> Inr None
      | Some s \<Rightarrow>
          if s = 0 then Inr None
          else (case toISOString (s * 1000) of
                  Inl e \<Rightarrow> Inl e
                | Inr stamp \<Rightarrow> Inr (Some stamp)))"

text \<open>
  Lines 53-64, reached with a transaction that has log messages. The date is formatted
  before the mint is looked at, and an empty mint address is falsy.
\<close>

definition extracted :: "string \<Rightarrow> ParsedTransaction \<Rightarrow> string list \<Rightarrow> Error + ExtractedResult" where
  "extracted sig tx logs =
     (let mint = processMintLog logs
      in case formatBlockTime (blockTime tx) of
           Inl e \<Rightarrow> Inl e
         | Inr time \<Rightarrow>
             (case mint of
                None \<Rightarrow> Inr Skipped
              | Some m \<Rightarrow>
                  if mintAddress m = [] then Inr Skipped
                  else Inr (Resolved \<lparr>signature = sig, tokenAddress = mintAddress m,
                                       timestamp = time\<rparr>)))"

text \<open>
  The \<^verbatim>\<open>try\<close> block of lines 38-64 for one answer of the ledger: it finds no log
  messages (line 44, through the optional chain \<^verbatim>\<open>tx?.meta?.logMessages\<close>), or
  something raises and the \<^verbatim>\<open>catch\<close> of line 65 is entered, or it returns a result.
\<close>

datatype Attempt = MissingLogs | Caught | Returned ExtractedResult

definition tryOnce :: "string \<Rightarrow> RpcReply \<Rightarrow> Attempt" where
  "tryOnce sig reply =
     (case reply of
        Raises \<Rightarrow> Caught
      | Returns None \<Rightarrow> MissingLogs
      | Returns (Some tx) \<Rightarrow>
          (case meta tx of
             None \<Rightarrow> MissingLogs
           | Some m \<Rightarrow>
               (case logMessages m of
                  None \<Rightarrow> MissingLogs
                | Some logs \<Rightarrow>
                    (case extracted sig tx logs of
                       Inl e \<Rightarrow> Caught
                     | Inr result \<Rightarrow> Returned result))))"

text \<open>What happens during a call, in order: requests to the ledger and pauses.\<close>

datatype Event = GetParsedTransaction string | Pause nat

text \<open>
  Lines 34-73. The ledger may answer each attempt differently: \<open>rpc sig attempt\<close> is
  its answer to the request of that attempt. The function returns its result and what it
  did. Both retry branches, the one for missing log messages (lines 45-50) and the
  \<^verbatim>\<open>catch\<close> (lines 66-71), pause 100 milliseconds and call again while \<^verbatim>\<open>attempt < 3\<close>.
\<close>

function extractTransactionInfo ::
    "(string \<Rightarrow> nat \<Rightarrow> RpcReply) \<Rightarrow> string \<Rightarrow> nat \<Rightarrow> ExtractedResult \<times> Event list" where
  "extractTransactionInfo rpc sig attempt =
     (case tryOnce sig (rpc sig attempt) of
        MissingLogs \<Rightarrow>
          if attempt < 3 then
            (let (result, events) = extractTransactionInfo rpc sig (attempt + 1)
             in (result, [GetParsedTransaction sig, Pause 100] @ events))
          else (Null, [GetParsedTransaction sig])
      | Caught \<Rightarrow>
          if attempt < 3 then
            (let (result, events) = extractTransactionInfo rpc sig (attempt + 1)
             in (result, [GetParsedTransaction sig, Pause 100] @ events))
          else (Null, [GetParsedTransaction sig])
      | Returned result \<Rightarrow> (result, [GetParsedTransaction sig]))"
  by pat_completeness auto
termination
  by (relation "measure (\<lambda>(rpc, sig, attempt). 3 - attempt)") auto

declare extractTransactionInfo.simps [simp del]

text \<open>The call of line 86, \<^verbatim>\<open>handler(items[i])\<close>, leaves \<^verbatim>\<open>attempt\<close> at its default 1.\<close>

definition extractResult :: "(string \<Rightarrow> nat \<Rightarrow> RpcReply) \<Rightarrow> string \<Rightarrow> ExtractedResult" where
  "extractResult rpc sig = fst (extractTransactionInfo rpc sig 1)"

section \<open>The worker pool (pumpfinder.ts, withConcurrency, lines 75-93)\<close>

text \<open>
  JavaScript runs one piece of code at a time: a worker runs from one \<^verbatim>\<open>await\<close> to the
  next without interruption. Between two such pieces the pool is described by the shared
  cursor \<^verbatim>\<open>index\<close>, the shared \<^verbatim>\<open>results\<close>, and the handler calls in flight: one
  for each worker suspended at line 86, given by the index \<^verbatim>\<open>i\<close> that worker claimed.
\<close>

record 'r Pool =
  index :: nat
  results :: "'r list"
  inFlight :: "nat list"

text \<open>
  Lines 84-86, from the loop test to the \<^verbatim>\<open>await\<close>: the worker claims the next index
  and calls the handler on it, or finds nothing to claim and returns.
\<close>

definition workerLoop :: "'a list \<Rightarrow> 'r Pool \<Rightarrow> 'r Pool" where
  "workerLoop items p =
     (if index p < length items
      then p\<lparr>index := index p + 1, inFlight := inFlight p @ [index p]\<rparr>
      else p)"

text \<open>
  Line 91: \<^verbatim>\<open>Array.from({ length: concurrency }, () => worker())\<close> calls \<^verbatim>\<open>worker\<close>
  once for each of the array's elements, each call running up to its first \<^verbatim>\<open>await\<close>.
\<close>

fun startWorkers :: "nat \<Rightarrow> 'a list \<Rightarrow> 'r Pool \<Rightarrow> 'r Pool" where
  "startWorkers 0 items p = p"
| "startWorkers (Suc k) items p = workerLoop items (startWorkers k items p)"

text \<open>
  Lines 86-88 and back to line 84: the \<open>k\<close>-th handler call in flight completes, its
  worker pushes the result and goes round the loop.
\<close>

definition resume :: "'a list \<Rightarrow> ('a \<Rightarrow> 'r) \<Rightarrow> nat \<Rightarrow> 'r Pool \<Rightarrow> 'r Pool" where
  "resume items handler k p =
     workerLoop items
       (p\<lparr>results := results p @ [handler (items ! (inFlight p ! k))],
          inFlight := take k (inFlight p) @ drop (Suc k) (inFlight p)\<rparr>)"

text \<open>
  Which call in flight completes next is not up to the program. A schedule is a list of
  numbers: each picks, modulo the number of calls in flight, the one that completes next
  (the first one, when the list is used up). The pool runs until no call is in flight,
  which is when \<^verbatim>\<open>Promise.all\<close> resolves. The function returns every state the pool
  passes through.
\<close>

definition pick :: "nat list \<Rightarrow> nat \<Rightarrow> nat" where
  "pick sched n = (case sched of [] \<Rightarrow> 0 | c # _ \<Rightarrow> c mod n)"

function poolRun :: "'a list \<Rightarrow> ('a \<Rightarrow> 'r) \<Rightarrow> nat list \<Rightarrow> 'r Pool \<Rightarrow> 'r Pool list" where
  "poolRun items handler sched p =
     (if inFlight p = [] then [p]
      else p # poolRun items handler (tl sched)
                 (resume items handler (pick sched (length (inFlight p))) p))"
  by pat_completeness auto
termination
proof (relation "measure (\<lambda>(items, handler, sched, p).
          2 * (length items - index p) + length (inFlight p))")
  show "wf (measure (\<lambda>(items :: 'a list, handler :: 'a \<Rightarrow> 'r, sched :: nat list, p :: 'r Pool).
          2 * (length items - index p) + length (inFlight p)))"
    by simp
next
  fix items :: "'a list" and handler :: "'a \<Rightarrow> 'r" and sched :: "nat list" and p :: "'r Pool"
  assume busy: "inFlight p \<noteq> []"
  have "pick sched (length (inFlight p)) < length (inFlight p)"
    using busy by (simp add: pick_def split: list.splits)
  then show "((items, handler, tl sched, resume items handler (pick sched (length (inFlight p))) p),
              (items, handler, sched, p))
            \<in> measure (\<lambda>(items, handler, sched, p).
                 2 * (length items - index p) + length (inFlight p))"
    by (auto simp: resume_def workerLoop_def)
qed

declare poolRun.simps [simp del]

definition emptyPool :: "'r Pool" where
  "emptyPool = \<lparr>index = 0, results = [], inFlight = []\<rparr>"

text \<open>
  The states of a whole call: while the workers are started one after the other, and
  then while their handler calls complete. \<^verbatim>\<open>Array.from\<close> takes a length below one as
  zero. It raises for a length of \<open>2\<^sup>3\<^sup>2\<close> or more: such a concurrency is outside the model.
\<close>

definition poolStates :: "'a list \<Rightarrow> ('a \<Rightarrow> 'r) \<Rightarrow> int \<Rightarrow> nat list \<Rightarrow> 'r Pool list" where
  "poolStates items handler concurrency sched =
     map (\<lambda>k. startWorkers k items emptyPool) [0 ..< nat concurrency]
     @ poolRun items handler sched (startWorkers (nat concurrency) items emptyPool)"

definition withConcurrency :: "'a list \<Rightarrow> ('a \<Rightarrow> 'r) \<Rightarrow> int \<Rightarrow> nat list \<Rightarrow> 'r list" where
  "withConcurrency items handler concurrency sched =
     results (last (poolStates items handler concurrency sched))"

text \<open>Lines 9-11: \<^verbatim>\<open>CONFIG.CONCURRENCY || 25\<close>, for a number or no entry in the file.\<close>

definition CONCURRENCY :: "int option \<Rightarrow> int" where
  "CONCURRENCY config = (case config of None \<Rightarrow> 25 | Some c \<Rightarrow> if c = 0 then 25 else c)"

section \<open>Collecting the signatures (pumpfinder.ts, lines 95-123)\<close>

definition TOTAL :: nat where
  "TOTAL = 20000"

definition BATCH_SIZE :: nat where
  "BATCH_SIZE = 1000"

definition START_BEFORE_SIGNATURE :: string where
  "START_BEFORE_SIGNATURE =
     ''nQWNjnJMVGFaqA7CzQQQMzM6gqacJTnzzFZHyKk1PM4H2axjR973jtMjvnVjVW7KjBPU1p7vBTZrAgsKtwozJZS''"

text \<open>
  One request of \<^verbatim>\<open>getSignatures\<close> (lines 95-101): the cursor and the limit it was
  called with, and the signatures the ledger returned.
\<close>

record Request =
  before :: string
  limit :: nat
  sigs :: "string list"

text \<open>
  The loop of lines 108-121, with the target count and the page size as parameters. The
  ledger is a function of the number of the call, the cursor and the limit, so that it
  may answer the same request differently at different times. The function returns the
  collected signatures and the requests made, in order.
\<close>

function fetchLoop ::
    "(nat \<Rightarrow> string \<Rightarrow> nat \<Rightarrow> string list) \<Rightarrow> nat \<Rightarrow> nat \<Rightarrow> string \<Rightarrow> string list \<Rightarrow> Request list
     \<Rightarrow> string list \<times> Request list" where
  "fetchLoop getSignatures target batchSize cursor fetchedSignatures requests =
     (if length fetchedSignatures < target then
        (let remaining = target - length fetchedSignatures;
             lim = min batchSize remaining;
             page = getSignatures (length requests) cursor lim;
             requests = requests @ [\<lparr>before = cursor, limit = lim, sigs = page\<rparr>]
         in if page = [] then (fetchedSignatures, requests)
            else fetchLoop getSignatures target batchSize (last page) (fetchedSignatures @ page) requests)
      else (fetchedSignatures, requests))"
  by pat_completeness auto
termination
proof (relation "measure (\<lambda>(getSignatures, target, batchSize, cursor, fetchedSignatures, requests).
        target - length fetchedSignatures)")
  show "wf (measure (\<lambda>(getSignatures :: nat \<Rightarrow> string \<Rightarrow> nat \<Rightarrow> string list, target :: nat,
        batchSize :: nat, cursor :: string, fetchedSignatures :: string list, requests :: Request list).
        target - length fetchedSignatures))"
    by simp
next
  fix getSignatures :: "nat \<Rightarrow> string \<Rightarrow> nat \<Rightarrow> string list"
    and target batchSize :: nat and cursor :: string and fetchedSignatures page :: "string list"
    and requests requests' :: "Request list" and remaining lim :: nat
  assume "length fetchedSignatures < target" and "page \<noteq> []"
  then obtain n where "length page = Suc n" and "length fetchedSignatures < target"
    by (cases page) auto
  then have "target - (length fetchedSignatures + length page) < target - length fetchedSignatures"
    by arith
  then show "((getSignatures, target, batchSize, last page, fetchedSignatures @ page, requests'),
         (getSignatures, target, batchSize, cursor, fetchedSignatures, requests))
        \<in> measure (\<lambda>(getSignatures, target, batchSize, cursor, fetchedSignatures, requests).
             target - length fetchedSignatures)"
    by simp
qed

declare fetchLoop.simps [simp del]

definition collect ::
    "(nat \<Rightarrow> string \<Rightarrow> nat \<Rightarrow> string list) \<Rightarrow> string \<Rightarrow> nat \<Rightarrow> nat \<Rightarrow> string list \<times> Request list" where
  "collect getSignatures startCursor targetCount pageSize =
     fetchLoop getSignatures targetCount pageSize startCursor [] []"

section \<open>The batch loop of main (pumpfinder.ts, lines 125-216)\<close>

text \<open>\<^verbatim>\<open>new Date(a.timestamp!).getTime()\<close>; \<^verbatim>\<open>new Date(null)\<close> is the epoch.\<close>

definition getTime :: "ResolvedTx \<Rightarrow> int" where
  "getTime tx = (case timestamp tx of None \<Rightarrow> 0 | Some t \<Rightarrow> t)"

text \<open>Lines 144-153: the first filter, \<^verbatim>\<open>tx !== null && !("skipped" in tx)\<close>.\<close>

fun resolvedOnly :: "ExtractedResult list \<Rightarrow> ResolvedTx list" where
  "resolvedOnly [] = []"
| "resolvedOnly (Resolved tx # rest) = tx # resolvedOnly rest"
| "resolvedOnly (Skipped # rest) = resolvedOnly rest"
| "resolvedOnly (Null # rest) = resolvedOnly rest"

text \<open>Lines 144-159: both filters, then the (stable) sort by time value.\<close>

definition validMints :: "ExtractedResult list \<Rightarrow> ResolvedTx list" where
  "validMints parsed =
     sort_key getTime (filter (\<lambda>tx. timestamp tx \<noteq> None) (resolvedOnly parsed))"

text \<open>Line 161: \<^verbatim>\<open>parsed.filter((tx) => tx && "skipped" in tx).length\<close>.\<close>

definition skippedCount :: "ExtractedResult list \<Rightarrow> nat" where
  "skippedCount parsed = length (filter (\<lambda>tx. tx = Skipped) parsed)"

definition pumpCAs :: "ExtractedResult list \<Rightarrow> ResolvedTx list" where
  "pumpCAs parsed = filter (\<lambda>tx. endsWith (tokenAddress tx) ''pump'') (validMints parsed)"

datatype OldestPumpToken = OldestPumpToken (oldTokenAddress: string) (oldTimestamp: iso_timestamp)

text \<open>Lines 184-197: the loop over \<^verbatim>\<open>pumpCAs\<close> that updates \<^verbatim>\<open>oldestPumpToken\<close>.\<close>

fun updateOldest :: "OldestPumpToken option \<Rightarrow> ResolvedTx list \<Rightarrow> OldestPumpToken option" where
  "updateOldest oldest [] = oldest"
| "updateOldest oldest (tx # txs) =
     updateOldest
       (case timestamp tx of
          None \<Rightarrow> oldest
        | Some t \<Rightarrow>
            (case oldest of
               None \<Rightarrow> Some (OldestPumpToken (tokenAddress tx) t)
             | Some old \<Rightarrow>
                 if t < oldTimestamp old then Some (OldestPumpToken (tokenAddress tx) t)
                 else oldest))
       txs"

text \<open>What the program prints and writes, in the order it does so.\<close>

datatype Output =
    BatchHeader nat nat
  | PumpTokensFound nat
  | OldestInBatch string "iso_timestamp option"
  | NoPumpInBatch
  | SkippedInBatch nat
  | BatchFile nat "ResolvedTx list"
  | FinalCounts nat nat
  | SkippedTotal nat
  | FirstPumpToken string iso_timestamp
  | NoPumpTokenFound

record Aggregate =
  totalPumpCount :: nat
  totalValid :: nat
  totalSkipped :: nat
  oldestPumpToken :: "OldestPumpToken option"
  printed :: "Output list"

definition initialAggregate :: Aggregate where
  "initialAggregate =
     \<lparr>totalPumpCount = 0, totalValid = 0, totalSkipped = 0, oldestPumpToken = None, printed = []\<rparr>"

text \<open>One iteration of the loop of lines 133-203, after \<^verbatim>\<open>parsed\<close> has been awaited.\<close>

definition batchStep :: "nat \<Rightarrow> nat \<Rightarrow> Aggregate \<Rightarrow> ExtractedResult list \<Rightarrow> Aggregate" where
  "batchStep totalBatches i agg parsed =
     (let valid = validMints parsed;
          skipped = skippedCount parsed;
          pumps = pumpCAs parsed
      in \<lparr>totalPumpCount = totalPumpCount agg + length pumps,
          totalValid = totalValid agg + length valid,
          totalSkipped = totalSkipped agg + skipped,
          oldestPumpToken = updateOldest (oldestPumpToken agg) pumps,
          printed = printed agg
            @ [BatchHeader (i + 1) totalBatches, PumpTokensFound (length pumps)]
            @ (case pumps of
                 [] \<Rightarrow> [NoPumpInBatch]
               | oldest # _ \<Rightarrow> [OldestInBatch (tokenAddress oldest) (timestamp oldest)])
            @ (if skipped > 0 then [SkippedInBatch skipped] else [])
            @ [BatchFile (i + 1) valid]\<rparr>)"

fun batchLoop :: "nat \<Rightarrow> nat \<Rightarrow> Aggregate \<Rightarrow> ExtractedResult list list \<Rightarrow> Aggregate" where
  "batchLoop totalBatches i agg [] = agg"
| "batchLoop totalBatches i agg (parsed # rest) =
     batchLoop totalBatches (i + 1) (batchStep totalBatches i agg parsed) rest"

text \<open>Lines 205-216: the final summary.\<close>

definition finalReport :: "Aggregate \<Rightarrow> Output list" where
  "finalReport agg =
     [FinalCounts (totalPumpCount agg) (totalValid agg), SkippedTotal (totalSkipped agg)]
     @ (case oldestPumpToken agg of
          Some old \<Rightarrow> [FirstPumpToken (oldTokenAddress old) (oldTimestamp old)]
        | None \<Rightarrow> [NoPumpTokenFound])"

text \<open>
  The part of \<^verbatim>\<open>main\<close> after the signatures are fetched, given what each batch's
  \<^verbatim>\<open>withConcurrency\<close> call returned: everything printed and written.
\<close>

definition processBatches :: "ExtractedResult list list \<Rightarrow> Output list" where
  "processBatches batches =
     (let agg = batchLoop (length batches) 0 initialAggregate batches
      in printed agg @ finalReport agg)"


section \<open>The whole of main (pumpfinder.ts, lines 103-217)\<close>

text \<open>
  The signatures are collected, cut into batches of \<^verbatim>\<open>BATCH_SIZE\<close>, each batch is
  run through the pool (with its own completion order \<open>sched i\<close>), and the outcomes go
  through the batch loop.
\<close>

definition main ::
    "int option \<Rightarrow> (nat \<Rightarrow> string \<Rightarrow> nat \<Rightarrow> string list) \<Rightarrow> (string \<Rightarrow> nat \<Rightarrow> RpcReply)
     \<Rightarrow> (nat \<Rightarrow> nat list) \<Rightarrow> Output list" where
  "main config getSignatures rpc sched =
     (let fetchedSignatures = fst (collect getSignatures START_BEFORE_SIGNATURE TOTAL BATCH_SIZE);
          totalBatches = (length fetchedSignatures + BATCH_SIZE - 1) div BATCH_SIZE;
          parsed = map (\<lambda>i. withConcurrency
                               (slice fetchedSignatures (Some (i * BATCH_SIZE)) (Some ((i + 1) * BATCH_SIZE)))
                               (extractResult rpc) (CONCURRENCY config) (sched i))
                       [0 ..< totalBatches]
      in processBatches parsed)"

section \<open>Notions used to state the properties\<close>

text \<open>
  Well-formed UTF-8, by the table of the Unicode standard (Table 3-7, well-formed UTF-8
  byte sequences): the bytes of a string without unpaired surrogates.
\<close>

fun wellFormedUTF8 :: "byte list \<Rightarrow> bool" where
  "wellFormedUTF8 [] = True"
| "wellFormedUTF8 (b # bs) =
     (if inRange 0x00 0x7F b then wellFormedUTF8 bs
      else case bs of
        [] \<Rightarrow> False
      | c1 # r1 \<Rightarrow>
          if inRange 0xC2 0xDF b then inRange 0x80 0xBF c1 \<and> wellFormedUTF8 r1
          else case r1 of
            [] \<Rightarrow> False
          | c2 # r2 \<Rightarrow>
              if b = 0xE0 then inRange 0xA0 0xBF c1 \<and> inRange 0x80 0xBF c2 \<and> wellFormedUTF8 r2
              else if inRange 0xE1 0xEC b \<or> inRange 0xEE 0xEF b then
                inRange 0x80 0xBF c1 \<and> inRange 0x80 0xBF c2 \<and> wellFormedUTF8 r2
              else if b = 0xED then
                inRange 0x80 0x9F c1 \<and> inRange 0x80 0xBF c2 \<and> wellFormedUTF8 r2
              else case r2 of
                [] \<Rightarrow> False
              | c3 # r3 \<Rightarrow>
                  if b = 0xF0 then
                    inRange 0x90 0xBF c1 \<and> inRange 0x80 0xBF c2 \<and> inRange 0x80 0xBF c3
                    \<and> wellFormedUTF8 r3
                  else if inRange 0xF1 0xF3 b then
                    inRange 0x80 0xBF c1 \<and> inRange 0x80 0xBF c2 \<and> inRange 0x80 0xBF c3
                    \<and> wellFormedUTF8 r3
                  else if b = 0xF4 then
                    inRange 0x80 0x8F c1 \<and> inRange 0x80 0xBF c2 \<and> inRange 0x80 0xBF c3
                    \<and> wellFormedUTF8 r3
                  else False)"

text \<open>
  The layout of the payload: eight leading bytes, three strings, each behind a length
  field of four bytes whose first byte is the number of bytes of the string, and three
  keys.
\<close>

definition lengthPrefixed :: "string \<Rightarrow> byte list \<Rightarrow> byte list" where
  "lengthPrefixed s pad = of_nat (length s) # pad @ map of_char s"

definition mintLayout ::
    "byte list \<Rightarrow> string \<Rightarrow> byte list \<Rightarrow> string \<Rightarrow> byte list \<Rightarrow> string \<Rightarrow> byte list
     \<Rightarrow> byte list \<Rightarrow> byte list \<Rightarrow> byte list \<Rightarrow> byte list" where
  "mintLayout lead n pad1 s pad2 u pad3 key1 key2 key3 =
     lead @ lengthPrefixed n pad1 @ lengthPrefixed s pad2 @ lengthPrefixed u pad3
     @ key1 @ key2 @ key3"

text \<open>
  A log with the pair of markers: a success line directly followed by a line that starts
  with the data prefix.
\<close>

definition hasMarkerPair :: "string list \<Rightarrow> bool" where
  "hasMarkerPair logs \<longleftrightarrow>
     list_ex (\<lambda>(line, nextLine). line = programSuccessLine \<and> startsWith nextLine dataPrefix)
       (zip logs (tl logs))"

text \<open>
  A string that fits the layout: fewer than 256 bytes, and well-formed. The decoder
  removes a byte order mark U+FEFF from the start of a string.
\<close>

definition fitsLength :: "string \<Rightarrow> bool" where
  "fitsLength s \<longleftrightarrow> length s < 256 \<and> wellFormedUTF8 (map of_char s)"

definition startsWithBOM :: "string \<Rightarrow> bool" where
  "startsWithBOM s \<longleftrightarrow> take 3 (map of_char s) = byteOrderMark"

text \<open>
  A record that counts for the final answer: a resolved outcome of some batch whose
  timestamp is present and whose token address ends with the suffix.
\<close>

definition matchingRecord :: "ExtractedResult list list \<Rightarrow> ResolvedTx \<Rightarrow> bool" where
  "matchingRecord batches tx \<longleftrightarrow>
     Resolved tx \<in> set (concat batches) \<and>
     timestamp tx \<noteq> None \<and> endsWith (tokenAddress tx) ''pump''"

text \<open>An outcome that resolved to a token address but carries no timestamp.\<close>

definition withoutTimestamp :: "ExtractedResult \<Rightarrow> bool" where
  "withoutTimestamp r = (case r of Resolved tx \<Rightarrow> timestamp tx = None | _ \<Rightarrow> False)"

definition isPumpRecord :: "ResolvedTx \<Rightarrow> bool" where
  "isPumpRecord tx \<longleftrightarrow> timestamp tx \<noteq> None \<and> endsWith (tokenAddress tx) ''pump''"

text \<open>
  What holds of the pool between any two of its steps: the results are the handler's
  values at the indices whose calls have completed, and these indices together with the
  indices in flight are exactly the indices below the cursor, each once.
\<close>

definition poolInv :: "'a list \<Rightarrow> ('a \<Rightarrow> 'r) \<Rightarrow> 'r Pool \<Rightarrow> bool" where
  "poolInv items handler p \<longleftrightarrow>
     index p \<le> length items \<and>
     (\<exists>order. results p = map (\<lambda>i. handler (items ! i)) order \<and>
        mset order + mset (inFlight p) = mset [0 ..< index p])"

text \<open>A pool in which work is left has a call in flight.\<close>

definition settled :: "'a list \<Rightarrow> 'r Pool \<Rightarrow> bool" where
  "settled items p \<longleftrightarrow> (index p < length items \<longrightarrow> inFlight p \<noteq> [])"

text \<open>Concrete runs used to exercise the theorems.\<close>

definition exampleBatches :: "ExtractedResult list list" where
  "exampleBatches =
     [[Resolved \<lparr>signature = ''s1'', tokenAddress = ''Apump'', timestamp = Some 2000\<rparr>, Skipped,
       Resolved \<lparr>signature = ''s2'', tokenAddress = ''Bpump'', timestamp = None\<rparr>],
      [Null, Resolved \<lparr>signature = ''s3'', tokenAddress = ''Cpump'', timestamp = Some 1000\<rparr>,
       Resolved \<lparr>signature = ''s4'', tokenAddress = ''Dother'', timestamp = Some 500\<rparr>]]"

definition recA :: ResolvedTx where
  "recA = \<lparr>signature = ''sA'', tokenAddress = ''Apump'', timestamp = Some 2000\<rparr>"
definition recB :: ResolvedTx where
  "recB = \<lparr>signature = ''sB'', tokenAddress = ''Bpump'', timestamp = Some 1000\<rparr>"
definition recC :: ResolvedTx where
  "recC = \<lparr>signature = ''sC'', tokenAddress = ''Cpump'', timestamp = Some 3000\<rparr>"


definition fiveItems :: "string list" where
  "fiveItems = [''a'', ''b'', ''c'', ''d'', ''e'']"

section \<open>Concrete payloads\<close>

text \<open>
  Three payloads: one that follows the layout (the strings \<open>Pump\<close>, \<open>P\<close> and \<open>u\<close>, and
  three keys), the same cut 22 bytes before its end, and one whose first string starts with
  the byte order mark.
\<close>

definition fullPayload :: string where
  "fullPayload =
     ''G3KpTd7rY3YEAAAAUHVtcAEAAABQAQAAAHUAAAAAAAAAAAAAAAAAAAAAAAAAAAAAAAAAAAAAAI6izwAA''
     @ ''AAAAAAAAAAAAAAAAAAAAAAAAAAAAAAAAAAAAAAABAAAAAAAAAAAAAAAAAAAAAAAAAAAAAAAAAAAAAAAA''
     @ ''AAI=''"

definition fullBuffer :: "byte list" where
  "fullBuffer =
     [27, 114, 169, 77, 222, 235, 99, 118, 4, 0, 0, 0, 80, 117, 109, 112, 1, 0, 0, 0, 80,
     1, 0, 0, 0, 117, 0, 0, 0, 0, 0, 0, 0, 0, 0, 0, 0, 0, 0, 0, 0, 0, 0, 0, 0, 0, 0, 0, 0,
     0, 0, 0, 0, 0, 0, 142, 162, 207, 0, 0, 0, 0, 0, 0, 0, 0, 0, 0, 0, 0, 0, 0, 0, 0, 0, 0,
     0, 0, 0, 0, 0, 0, 0, 0, 0, 0, 0, 0, 0, 1, 0, 0, 0, 0, 0, 0, 0, 0, 0, 0, 0, 0, 0, 0, 0,
     0, 0, 0, 0, 0, 0, 0, 0, 0, 0, 0, 0, 0, 0, 0, 0, 2]"

definition truncatedPayload :: string where
  "truncatedPayload =
     ''G3KpTd7rY3YEAAAAUHVtcAEAAABQAQAAAHUAAAAAAAAAAAAAAAAAAAAAAAAAAAAAAAAAAAAAAI6izwAA''
     @ ''AAAAAAAAAAAAAAAAAAAAAAAAAAAAAAAAAAAAAAABAAAAAAAAAAAAAA==''"

definition truncatedBuffer :: "byte list" where
  "truncatedBuffer =
     [27, 114, 169, 77, 222, 235, 99, 118, 4, 0, 0, 0, 80, 117, 109, 112, 1, 0, 0, 0, 80,
     1, 0, 0, 0, 117, 0, 0, 0, 0, 0, 0, 0, 0, 0, 0, 0, 0, 0, 0, 0, 0, 0, 0, 0, 0, 0, 0, 0,
     0, 0, 0, 0, 0, 0, 142, 162, 207, 0, 0, 0, 0, 0, 0, 0, 0, 0, 0, 0, 0, 0, 0, 0, 0, 0, 0,
     0, 0, 0, 0, 0, 0, 0, 0, 0, 0, 0, 0, 0, 1, 0, 0, 0, 0, 0, 0, 0, 0, 0, 0]"

definition markedPayload :: string where
  "markedPayload =
     ''G3KpTd7rY3YEAAAA77u/QQEAAABQAQAAAHUAAAAAAAAAAAAAAAAAAAAAAAAAAAAAAAAAAAAAAI6izwAA''
     @ ''AAAAAAAAAAAAAAAAAAAAAAAAAAAAAAAAAAAAAAABAAAAAAAAAAAAAAAAAAAAAAAAAAAAAAAAAAAAAAAA''
     @ ''AAI=''"

definition markedBuffer :: "byte list" where
  "markedBuffer =
     [27, 114, 169, 77, 222, 235, 99, 118, 4, 0, 0, 0, 239, 187, 191, 65, 1, 0, 0, 0, 80,
     1, 0, 0, 0, 117, 0, 0, 0, 0, 0, 0, 0, 0, 0, 0, 0, 0, 0, 0, 0, 0, 0, 0, 0, 0, 0, 0, 0,
     0, 0, 0, 0, 0, 0, 142, 162, 207, 0, 0, 0, 0, 0, 0, 0, 0, 0, 0, 0, 0, 0, 0, 0, 0, 0, 0,
     0, 0, 0, 0, 0, 0, 0, 0, 0, 0, 0, 0, 0, 1, 0, 0, 0, 0, 0, 0, 0, 0, 0, 0, 0, 0, 0, 0, 0,
     0, 0, 0, 0, 0, 0, 0, 0, 0, 0, 0, 0, 0, 0, 0, 0, 2]"

definition markedName :: string where
  "markedName = [CHR 0xEF, CHR 0xBB, CHR 0xBF, CHR ''A'']"

definition leadBytes :: "byte list" where
  "leadBytes = [27, 114, 169, 77, 222, 235, 99, 118]"

definition pumpKey :: "byte list" where
  "pumpKey =
     [0, 0, 0, 0, 0, 0, 0, 0, 0, 0, 0, 0, 0, 0, 0, 0, 0, 0, 0, 0, 0, 0, 0, 0, 0, 0, 0, 0,
     0, 142, 162, 207]"

definition keyTwo :: "byte list" where
  "keyTwo =
     [0, 0, 0, 0, 0, 0, 0, 0, 0, 0, 0, 0, 0, 0, 0, 0, 0, 0, 0, 0, 0, 0, 0, 0, 0, 0, 0, 0,
     0, 0, 0, 1]"

definition keyThree :: "byte list" where
  "keyThree =
     [0, 0, 0, 0, 0, 0, 0, 0, 0, 0, 0, 0, 0, 0, 0, 0, 0, 0, 0, 0, 0, 0, 0, 0, 0, 0, 0, 0,
     0, 0, 0, 2]"

definition cutKey :: "byte list" where
  "cutKey = [0, 0, 0, 0, 0, 0, 0, 0, 0, 0]"

text \<open>
  What a call does when it makes \<open>n\<close> attempts: \<open>n\<close> requests, with a pause of 100
  milliseconds before each but the first.
\<close>

definition attempts :: "string \<Rightarrow> nat \<Rightarrow> Event list" where
  "attempts sig n =
     concat (replicate (n - 1) [GetParsedTransaction sig, Pause 100]) @ [GetParsedTransaction sig]"

text \<open>
  The two failures of the claim: the call raises, or the metadata is absent (no
  transaction, no \<^verbatim>\<open>meta\<close>, or no log messages).
\<close>

definition metadataAbsent :: "RpcReply \<Rightarrow> bool" where
  "metadataAbsent reply =
     (case reply of
        Raises \<Rightarrow> False
      | Returns None \<Rightarrow> True
      | Returns (Some tx) \<Rightarrow>
          (case meta tx of None \<Rightarrow> True | Some m \<Rightarrow> logMessages m = None))"

definition fails :: "RpcReply \<Rightarrow> bool" where
  "fails reply \<longleftrightarrow> reply = Raises \<or> metadataAbsent reply"

text \<open>An attempt after which the function tries again, if it may.\<close>

definition failing :: "Attempt \<Rightarrow> bool" where
  "failing a \<longleftrightarrow> a = MissingLogs \<or> a = Caught"

text \<open>
  Ledgers to exercise the theorems: one that raises, then has no transaction, then
  answers with a transaction without mint event; one that always raises; one that answers
  at once and one that answers at the second attempt; and one that answers at once with a
  transaction that carries the full payload and the given block time.
\<close>

definition plainTransaction :: ParsedTransaction where
  "plainTransaction =
     \<lparr>meta = Some \<lparr>logMessages = Some [''Program log: hello'']\<rparr>, blockTime = Some 1700000000\<rparr>"

definition flakyLedger :: "string \<Rightarrow> nat \<Rightarrow> RpcReply" where
  "flakyLedger sig attempt =
     (if attempt = 1 then Raises
      else if attempt = 2 then Returns None
      else Returns (Some plainTransaction))"

definition deadLedger :: "string \<Rightarrow> nat \<Rightarrow> RpcReply" where
  "deadLedger sig attempt = Raises"

definition promptLedger :: "string \<Rightarrow> nat \<Rightarrow> RpcReply" where
  "promptLedger sig attempt = Returns (Some plainTransaction)"

definition slowLedger :: "string \<Rightarrow> nat \<Rightarrow> RpcReply" where
  "slowLedger sig attempt = (if attempt = 1 then Returns None else Returns (Some plainTransaction))"

definition mintLogs :: "string list" where
  "mintLogs = [programSuccessLine, ''Program data: '' @ fullPayload]"

definition mintTransaction :: "int option \<Rightarrow> ParsedTransaction" where
  "mintTransaction seconds = \<lparr>meta = Some \<lparr>logMessages = Some mintLogs\<rparr>, blockTime = seconds\<rparr>"

definition mintLedger :: "int option \<Rightarrow> string \<Rightarrow> nat \<Rightarrow> RpcReply" where
  "mintLedger seconds sig attempt = Returns (Some (mintTransaction seconds))"

text \<open>
  A ledger that honours the limit of a request, and the number of signatures collected
  before the \<open>k\<close>-th request.
\<close>

definition honoursLimit :: "(nat \<Rightarrow> string \<Rightarrow> nat \<Rightarrow> string list) \<Rightarrow> bool" where
  "honoursLimit getSignatures \<longleftrightarrow> (\<forall>k cursor lim. length (getSignatures k cursor lim) \<le> lim)"

definition collectedBefore :: "Request list \<Rightarrow> nat \<Rightarrow> nat" where
  "collectedBefore requests k = length (concat (map sigs (take k requests)))"

text \<open>
  The requests that the loop makes from a state with the given cursor, \<open>c\<close> signatures
  collected and \<open>k\<close> requests made: used in the proofs only.
\<close>

fun follows ::
    "(nat \<Rightarrow> string \<Rightarrow> nat \<Rightarrow> string list) \<Rightarrow> nat \<Rightarrow> nat \<Rightarrow> string \<Rightarrow> nat \<Rightarrow> nat \<Rightarrow> Request list
     \<Rightarrow> bool" where
  "follows getSignatures target batchSize cursor c k [] \<longleftrightarrow> target \<le> c"
| "follows getSignatures target batchSize cursor c k (r # rs) \<longleftrightarrow>
     c < target \<and> before r = cursor \<and> limit r = min batchSize (target - c) \<and>
     sigs r = getSignatures k cursor (limit r) \<and>
     (if sigs r = [] then rs = []
      else follows getSignatures target batchSize (last (sigs r)) (c + length (sigs r)) (Suc k) rs)"

text \<open>A ledger with a history of five signatures, newest first, that honours cursor and limit.\<close>

definition history :: "string list" where
  "history = [''s5'', ''s4'', ''s3'', ''s2'', ''s1'']"

definition historyLedger :: "nat \<Rightarrow> string \<Rightarrow> nat \<Rightarrow> string list" where
  "historyLedger k cursor lim = take lim (tl (dropWhile (\<lambda>s. s \<noteq> cursor) (''start'' # history)))"

text \<open>
  A ledger with the same history that honours the cursor and ignores the limit: it answers
  with everything that is older than the cursor.
\<close>

definition greedyLedger :: "nat \<Rightarrow> string \<Rightarrow> nat \<Rightarrow> string list" where
  "greedyLedger k cursor lim = tl (dropWhile (\<lambda>s. s \<noteq> cursor) (''start'' # history))"

section \<open>Properties of the event decoder\<close>

lemma utf8Decode_wellFormed: "wellFormedUTF8 bs \<Longrightarrow> utf8Decode bs = bs"
proof (induction "length bs" arbitrary: bs rule: less_induct)
  case less
  show ?case
  proof (cases bs)
    case Nil
    then show ?thesis by simp
  next
    case (Cons b rest)
    note bs = Cons
    show ?thesis
    proof (cases "inRange 0x00 0x7F b")
      case True
      with less.prems bs have "wellFormedUTF8 rest" by simp
      with less.hyps [of rest] bs have "utf8Decode rest = rest" by simp
      with True bs show ?thesis by simp
    next
      case ascii: False
      with less.prems bs obtain c1 r1 where rest: "rest = c1 # r1"
        by (cases rest) auto
      show ?thesis
      proof (cases "inRange 0xC2 0xDF b")
        case True
        with less.prems bs ascii rest have c: "inRange 0x80 0xBF c1" and w: "wellFormedUTF8 r1"
          by simp_all
        from w less.hyps [of r1] bs rest have "utf8Decode r1 = r1" by simp
        with True ascii c bs rest show ?thesis by simp
      next
        case two: False
        with less.prems bs ascii rest obtain c2 r2 where r1: "r1 = c2 # r2"
          by (cases r1) auto
        show ?thesis
        proof (cases "b = 0xE0 \<or> inRange 0xE1 0xEC b \<or> inRange 0xEE 0xEF b \<or> b = 0xED")
          case True
          then have lead: "inRange 0xE0 0xEF b"
            by (auto simp: inRange_def)
          have wf: "wellFormedUTF8 (b # c1 # c2 # r2)"
            using less.prems bs rest r1 by simp
          have tails: "inRange (lowerBoundary b) (upperBoundary b) c1 \<and> inRange 0x80 0xBF c2
              \<and> wellFormedUTF8 r2"
            using True wf ascii two
            by (cases "b = 0xE0"; cases "b = 0xED")
               (auto simp: lowerBoundary_def upperBoundary_def inRange_def)
          with less.hyps [of r2] bs rest r1 have "utf8Decode r2 = r2" by simp
          with lead tails ascii two bs rest r1 show ?thesis by simp
        next
          case three: False
          have wf: "wellFormedUTF8 (b # c1 # c2 # r2)"
            using less.prems bs rest r1 by simp
          with three ascii two obtain c3 r3 where r2: "r2 = c3 # r3"
            by (cases r2) auto
          have four: "b = 0xF0 \<or> inRange 0xF1 0xF3 b \<or> b = 0xF4"
            using wf three ascii two r2 by (simp split: if_splits)
          then have lead: "inRange 0xF0 0xF4 b" "\<not> inRange 0xE0 0xEF b"
            by (auto simp: inRange_def)
          have tails: "inRange (lowerBoundary b) (upperBoundary b) c1 \<and> inRange 0x80 0xBF c2
              \<and> inRange 0x80 0xBF c3 \<and> wellFormedUTF8 r3"
            using four wf three ascii two r2
            by (cases "b = 0xF0"; cases "b = 0xF4")
               (auto simp: lowerBoundary_def upperBoundary_def inRange_def)
          with less.hyps [of r3] bs rest r1 r2 have "utf8Decode r3 = r3" by simp
          with lead tails ascii two bs rest r1 r2 show ?thesis by simp
        qed
      qed
    qed
  qed
qed

lemma unat_of_char: "unat (of_char c :: byte) = of_char c"
proof -
  have "unat (of_char c :: byte) = unat (of_nat (of_char c) :: byte)"
    by (simp only: of_nat_of_char)
  also have "\<dots> = of_char c mod 256"
    by (simp add: unat_of_nat)
  finally show ?thesis by simp
qed

lemma char_of_unat_of_char: "char_of (unat (of_char c :: byte)) = c"
  by (simp add: unat_of_char)

lemma decode_string:
  assumes "wellFormedUTF8 (map of_char s)" "\<not> startsWithBOM s"
  shows "TextDecoder_decode (map of_char s) = s"
  using assms
  by (simp add: TextDecoder_decode_def startsWithBOM_def utf8Decode_wellFormed o_def
      char_of_unat_of_char map_idI)

lemma slice_middle:
  "slice (A @ B @ C) (Some (length A)) (Some (length A + length B)) = B"
  by (simp add: slice_def toInteger_def)

lemma at_lengthPrefixed:
  "length s < 256 \<Longrightarrow> at (A @ lengthPrefixed s pad @ R) (Some (length A)) = Some (length s)"
  by (simp add: at_def lengthPrefixed_def nth_append unat_of_nat)

lemma read_lengthPrefixed:
  assumes "fitsLength s" "\<not> startsWithBOM s" "length pad = 3"
  shows "readLengthPrefixedString (A @ lengthPrefixed s pad @ R) (Some (length A))
         = (s, Some (length A + 4 + length s))"
proof -
  have len: "length s < 256" and wf: "wellFormedUTF8 (map of_char s)"
    using assms(1) by (simp_all add: fitsLength_def)
  have "A @ lengthPrefixed s pad @ R = (A @ of_nat (length s) # pad) @ map of_char s @ R"
    by (simp add: lengthPrefixed_def)
  then have "slice (A @ lengthPrefixed s pad @ R) (Some (length A + 4)) (Some (length A + 4 + length s))
      = map of_char s"
    using slice_middle [of "A @ of_nat (length s) # pad" "map of_char s" R] assms(3)
    by simp
  then show ?thesis
    using at_lengthPrefixed [OF len, of A pad R] decode_string [OF wf assms(2)]
    by (simp add: readLengthPrefixedString_def plus_def Let_def)
qed

lemma slice_at:
  "length A = a \<Longrightarrow> length K = k \<Longrightarrow> slice (A @ K @ R) (Some a) (Some (a + k)) = K"
  using slice_middle [of A K R] by simp

lemma slice_last:
  "length A = a \<Longrightarrow> length K \<le> k \<Longrightarrow> slice (A @ K @ []) (Some a) (Some (a + k)) = K"
  by (simp add: slice_def toInteger_def)

lemma read_at:
  "length A = a \<Longrightarrow> fitsLength s \<Longrightarrow> \<not> startsWithBOM s \<Longrightarrow> length pad = 3 \<Longrightarrow>
   readLengthPrefixedString (A @ lengthPrefixed s pad @ R) (Some a) = (s, Some (a + 4 + length s))"
  using read_lengthPrefixed [of s pad A R] by simp

lemma decodeMint_layout:
  assumes buf: "base64Decode data = mintLayout lead n pad1 s pad2 u pad3 key1 key2 key3"
    and lead: "length lead = 8"
    and pads: "length pad1 = 3" "length pad2 = 3" "length pad3 = 3"
    and fits: "fitsLength n" "fitsLength s" "fitsLength u"
    and bom: "\<not> startsWithBOM n" "\<not> startsWithBOM s" "\<not> startsWithBOM u"
    and keys: "length key1 = 32" "length key2 = 32" "length key3 \<le> 32"
  shows "decodeMint data =
           \<lparr>name = n, symbol = s, uri = u, mintAddress = bs58_encode key1,
            bondingCurve = bs58_encode key2, user = bs58_encode key3\<rparr>"
proof -
  define B where "B = mintLayout lead n pad1 s pad2 u pad3 key1 key2 key3"
  let ?o0 = "0 + 8 :: nat"
  let ?o1 = "?o0 + 4 + length n"
  let ?o2 = "?o1 + 4 + length s"
  let ?o3 = "?o2 + 4 + length u"
  let ?L1 = "lead @ lengthPrefixed n pad1"
  let ?L2 = "?L1 @ lengthPrefixed s pad2"
  let ?L3 = "?L2 @ lengthPrefixed u pad3"
  have len0: "length lead = ?o0" using lead by simp
  have len1: "length ?L1 = ?o1" and len2: "length ?L2 = ?o2" and len3: "length ?L3 = ?o3"
    using lead pads by (simp_all add: lengthPrefixed_def)
  have B1: "B = lead @ lengthPrefixed n pad1 @ (lengthPrefixed s pad2 @ lengthPrefixed u pad3 @ key1 @ key2 @ key3)"
    and B2: "B = ?L1 @ lengthPrefixed s pad2 @ (lengthPrefixed u pad3 @ key1 @ key2 @ key3)"
    and B3: "B = ?L2 @ lengthPrefixed u pad3 @ (key1 @ key2 @ key3)"
    and B4: "B = ?L3 @ key1 @ (key2 @ key3)"
    and B5: "B = (?L3 @ key1) @ key2 @ key3"
    and B6: "B = (?L3 @ key1 @ key2) @ key3 @ []"
    by (simp_all add: B_def mintLayout_def)
  have r1: "readLengthPrefixedString B (Some ?o0) = (n, Some ?o1)"
    unfolding B1 by (rule read_at) (fact len0 fits bom pads)+
  have r2: "readLengthPrefixedString B (Some ?o1) = (s, Some ?o2)"
    unfolding B2 by (rule read_at) (fact len1 fits bom pads)+
  have r3: "readLengthPrefixedString B (Some ?o2) = (u, Some ?o3)"
    unfolding B3 by (rule read_at) (fact len2 fits bom pads)+
  have k1: "slice B (Some ?o3) (Some (?o3 + 32)) = key1"
    unfolding B4 by (rule slice_at) (fact len3 keys(1))+
  have k2: "slice B (Some (?o3 + 32)) (Some (?o3 + 32 + 32)) = key2"
    unfolding B5
  proof (rule slice_at)
    show "length (?L3 @ key1) = ?o3 + 32" using len3 keys by simp
    show "length key2 = 32" by fact
  qed
  have k3: "slice B (Some (?o3 + 32 + 32)) (Some (?o3 + 32 + 32 + 32)) = key3"
    unfolding B6
  proof (rule slice_last)
    show "length (?L3 @ key1 @ key2) = ?o3 + 32 + 32" using len3 keys by simp
    show "length key3 \<le> 32" by fact
  qed
  have plus: "plus (Some a) (Some b) = Some (a + b)" for a b
    by (simp add: plus_def)
  show ?thesis
    unfolding decodeMint_def buf B_def [symmetric]
    by (simp only: Let_def plus r1 r2 r3 k1 k2 k3 prod.case)
qed

lemma startsWith_nonempty: "startsWith s dataPrefix \<Longrightarrow> s \<noteq> []"
  by (auto simp: startsWith_def dataPrefix_def)

lemma processMintLog_None_iff: "processMintLog logs = None \<longleftrightarrow> \<not> hasMarkerPair logs"
proof (induction logs rule: processMintLog.induct)
  case 1
  then show ?case by (simp add: hasMarkerPair_def)
next
  case (2 line)
  then show ?case by (simp add: hasMarkerPair_def)
next
  case (3 line nextLine logs)
  then show ?case
    using startsWith_nonempty [of nextLine]
    by (auto simp: hasMarkerPair_def)
qed

lemma slice_beyond: "length data \<le> a \<Longrightarrow> slice data (Some a) e = []"
  by (simp add: slice_def toInteger_def)

lemma slice_NaN: "slice data s None = []"
  by (simp add: slice_def toInteger_def)

lemma TextDecoder_empty: "TextDecoder_decode [] = []"
  by (simp add: TextDecoder_decode_def byteOrderMark_def)

lemma bs58_empty: "bs58_encode [] = []"
  by (simp add: bs58_encode_def base58Digits.simps)

lemma read_NaN: "readLengthPrefixedString data None = ([], None)"
  by (simp add: readLengthPrefixedString_def at_def plus_def slice_NaN TextDecoder_empty)

lemma read_beyond:
  "length data \<le> a \<Longrightarrow> readLengthPrefixedString data (Some a) = ([], None)"
  by (simp add: readLengthPrefixedString_def at_def plus_def slice_NaN TextDecoder_empty)

lemma decodeMint_short:
  assumes "length (base64Decode data) \<le> 8"
  shows "decodeMint data =
           \<lparr>name = [], symbol = [], uri = [], mintAddress = [], bondingCurve = [], user = []\<rparr>"
  unfolding decodeMint_def
  by (simp add: plus_def read_beyond [OF assms] read_NaN slice_NaN bs58_empty)
lemma processMintLog_pair:
  "startsWith nextLine dataPrefix \<Longrightarrow>
     processMintLog (programSuccessLine # nextLine # rest)
     = Some (decodeMint (trim (replace nextLine ''Program data: '' [])))"
  using startsWith_nonempty [of nextLine] by simp

lemma replace_prefix: "p \<noteq> [] \<Longrightarrow> replace (p @ s) p r = r @ s"
  by (cases p) (simp_all add: startsWith_def)

lemma trimStart_id:
  assumes "s = c # s'" "c \<notin> hd ` set whiteSpace"
  shows "trimStart s = s"
proof -
  have "\<not> startsWith s w" if "w \<in> set whiteSpace" for w
  proof
    assume "startsWith s w"
    moreover from that have "w \<noteq> []" by (auto simp: whiteSpace_def)
    ultimately have "hd w = c"
      using assms(1) by (cases w) (auto simp: startsWith_def)
    with that assms(2) show False by auto
  qed
  then have "find (startsWith s) whiteSpace = None"
    by (simp add: find_None_iff)
  then show ?thesis
    by (subst trimStart.simps) simp
qed

lemma trimEnd_id:
  assumes "s \<noteq> []" "last s \<notin> last ` set whiteSpace"
  shows "trimEnd s = s"
proof -
  have "\<not> endsWith s w" if "w \<in> set whiteSpace" for w
  proof
    assume e: "endsWith s w"
    from that have "w \<noteq> []" by (auto simp: whiteSpace_def)
    from e have "s = take (length s - length w) s @ w"
      by (metis append_take_drop_id endsWith_def)
    with \<open>w \<noteq> []\<close> have "last s = last w"
      by (metis last_appendR)
    with that assms(2) show False by auto
  qed
  then have "find (endsWith s) whiteSpace = None"
    by (simp add: find_None_iff)
  then show ?thesis
    by (subst trimEnd.simps) simp
qed

lemma payload_of_line:
  assumes "p = c # p'" "c \<notin> hd ` set whiteSpace" "last p \<notin> last ` set whiteSpace"
  shows "trim (replace (''Program data: '' @ p) ''Program data: '' []) = p"
proof -
  have "replace (''Program data: '' @ p) ''Program data: '' [] = p"
    using replace_prefix [of "''Program data: ''" p "[]"] by simp
  moreover have "trimStart p = p"
    using assms(1,2) by (rule trimStart_id)
  moreover have "trimEnd p = p"
    using assms(1,3) by (intro trimEnd_id) simp_all
  ultimately show ?thesis
    by (simp add: trim_def)
qed

lemma heads_of_whiteSpace:
  "hd ` set whiteSpace = {CHR 0x09, CHR 0x0A, CHR 0x0B, CHR 0x0C, CHR 0x0D, CHR 0x20, CHR 0xC2,
     CHR 0xE1, CHR 0xE2, CHR 0xE3, CHR 0xEF}"
  by (auto simp: whiteSpace_def)

lemma lasts_of_whiteSpace:
  "last ` set whiteSpace = {CHR 0x09, CHR 0x0A, CHR 0x0B, CHR 0x0C, CHR 0x0D, CHR 0x20, CHR 0xA0,
     CHR 0x80, CHR 0x81, CHR 0x82, CHR 0x83, CHR 0x84, CHR 0x85, CHR 0x86, CHR 0x87, CHR 0x88,
     CHR 0x89, CHR 0x8A, CHR 0xA8, CHR 0xA9, CHR 0xAF, CHR 0x9F, CHR 0xBF}"
  by (auto simp: whiteSpace_def)

subsection \<open>The concrete payloads\<close>

lemmas base64_defs = base64Decode_def base64Value_def List.map_filter_simps

lemma base64_full: "base64Decode fullPayload = fullBuffer"
  by (simp add: fullPayload_def fullBuffer_def base64_defs)

lemma base64_truncated: "base64Decode truncatedPayload = truncatedBuffer"
  by (simp add: truncatedPayload_def truncatedBuffer_def base64_defs)

lemma base64_marked: "base64Decode markedPayload = markedBuffer"
  by (simp add: markedPayload_def markedBuffer_def base64_defs)

lemmas layout_defs = mintLayout_def lengthPrefixed_def leadBytes_def pumpKey_def keyTwo_def
  keyThree_def cutKey_def markedName_def

lemma layout_full:
  "fullBuffer = mintLayout leadBytes ''Pump'' [0, 0, 0] ''P'' [0, 0, 0] ''u'' [0, 0, 0]
                  pumpKey keyTwo keyThree"
  by (simp add: fullBuffer_def layout_defs)

lemma layout_truncated:
  "truncatedBuffer = mintLayout leadBytes ''Pump'' [0, 0, 0] ''P'' [0, 0, 0] ''u'' [0, 0, 0]
                       pumpKey keyTwo cutKey"
  by (simp add: truncatedBuffer_def layout_defs)

lemma layout_marked:
  "markedBuffer = mintLayout leadBytes markedName [0, 0, 0] ''P'' [0, 0, 0] ''u'' [0, 0, 0]
                    pumpKey keyTwo keyThree"
  by (simp add: markedBuffer_def layout_defs)

lemma fits_examples:
  "fitsLength ''Pump''" "fitsLength ''P''" "fitsLength ''u''" "fitsLength markedName"
  by (simp_all add: fitsLength_def inRange_def unat_of_char markedName_def)

lemma no_BOM_examples:
  "\<not> startsWithBOM ''Pump''" "\<not> startsWithBOM ''P''" "\<not> startsWithBOM ''u''"
  by (simp_all add: startsWithBOM_def byteOrderMark_def)

lemma key_lengths:
  "length leadBytes = 8" "length pumpKey = 32" "length keyTwo = 32" "length keyThree = 32"
  "length cutKey = 10"
  by (simp_all add: leadBytes_def pumpKey_def keyTwo_def keyThree_def cutKey_def)

lemmas bs58_defs = bs58_encode_def base58Digits.simps ALPHABET_def

lemma bs58_examples:
  "bs58_encode pumpKey = ''11111111111111111111111111111pump''"
  "bs58_encode keyTwo = ''11111111111111111111111111111112''"
  "bs58_encode keyThree = ''11111111111111111111111111111113''"
  "bs58_encode cutKey = ''1111111111''"
  by (simp_all add: pumpKey_def keyTwo_def keyThree_def cutKey_def bs58_defs)

lemma decodeMint_full:
  "decodeMint fullPayload =
     \<lparr>name = ''Pump'', symbol = ''P'', uri = ''u'',
      mintAddress = ''11111111111111111111111111111pump'',
      bondingCurve = ''11111111111111111111111111111112'',
      user = ''11111111111111111111111111111113''\<rparr>"
proof -
  have "base64Decode fullPayload
      = mintLayout leadBytes ''Pump'' [0, 0, 0] ''P'' [0, 0, 0] ''u'' [0, 0, 0] pumpKey keyTwo keyThree"
    by (simp only: base64_full layout_full)
  then have "decodeMint fullPayload =
      \<lparr>name = ''Pump'', symbol = ''P'', uri = ''u'', mintAddress = bs58_encode pumpKey,
       bondingCurve = bs58_encode keyTwo, user = bs58_encode keyThree\<rparr>"
    by (rule decodeMint_layout [OF _ key_lengths(1) _ _ _ fits_examples(1-3) no_BOM_examples])
       (simp_all add: key_lengths)
  then show ?thesis by (simp only: bs58_examples)
qed

lemma decodeMint_truncated:
  "decodeMint truncatedPayload =
     \<lparr>name = ''Pump'', symbol = ''P'', uri = ''u'',
      mintAddress = ''11111111111111111111111111111pump'',
      bondingCurve = ''11111111111111111111111111111112'',
      user = ''1111111111''\<rparr>"
proof -
  have "base64Decode truncatedPayload
      = mintLayout leadBytes ''Pump'' [0, 0, 0] ''P'' [0, 0, 0] ''u'' [0, 0, 0] pumpKey keyTwo cutKey"
    by (simp only: base64_truncated layout_truncated)
  then have "decodeMint truncatedPayload =
      \<lparr>name = ''Pump'', symbol = ''P'', uri = ''u'', mintAddress = bs58_encode pumpKey,
       bondingCurve = bs58_encode keyTwo, user = bs58_encode cutKey\<rparr>"
    by (rule decodeMint_layout [OF _ key_lengths(1) _ _ _ fits_examples(1-3) no_BOM_examples])
       (simp_all add: key_lengths)
  then show ?thesis by (simp only: bs58_examples)
qed

lemma line_full:
  "startsWith (''Program data: '' @ fullPayload) dataPrefix"
  "trim (replace (''Program data: '' @ fullPayload) ''Program data: '' []) = fullPayload"
proof -
  show "startsWith (''Program data: '' @ fullPayload) dataPrefix"
    by (simp add: startsWith_def fullPayload_def dataPrefix_def)
  have "last fullPayload = CHR ''=''"
    by (simp add: fullPayload_def)
  then show "trim (replace (''Program data: '' @ fullPayload) ''Program data: '' []) = fullPayload"
    by (intro payload_of_line [where c = "CHR ''G''"])
       (simp_all add: heads_of_whiteSpace lasts_of_whiteSpace fullPayload_def)
qed

lemma line_truncated:
  "startsWith (''Program data: '' @ truncatedPayload) dataPrefix"
  "trim (replace (''Program data: '' @ truncatedPayload) ''Program data: '' []) = truncatedPayload"
proof -
  show "startsWith (''Program data: '' @ truncatedPayload) dataPrefix"
    by (simp add: startsWith_def truncatedPayload_def dataPrefix_def)
  have "last truncatedPayload = CHR ''=''"
    by (simp add: truncatedPayload_def)
  then show "trim (replace (''Program data: '' @ truncatedPayload) ''Program data: '' [])
      = truncatedPayload"
    by (intro payload_of_line [where c = "CHR ''G''"])
       (simp_all add: heads_of_whiteSpace lasts_of_whiteSpace truncatedPayload_def)
qed
text \<open>
  What the code does with a buffer that is shorter than its fields require. No length is
  checked and nothing raises, so the \<^verbatim>\<open>catch\<close> of \<^verbatim>\<open>processMintLog\<close> is never entered:
  the result is absent only when the log has no pair of markers. With at most eight bytes
  every field comes out empty, and when the buffer ends inside the last key the last field
  is the encoding of the bytes that remain.
\<close>

lemma short_buffer_decoded:
  "(processMintLog logs = None \<longleftrightarrow> \<not> hasMarkerPair logs) \<and>
   (length (base64Decode data) \<le> 8 \<longrightarrow>
      decodeMint data =
        \<lparr>name = [], symbol = [], uri = [], mintAddress = [], bondingCurve = [], user = []\<rparr>) \<and>
   (base64Decode data' = mintLayout lead n pad1 s pad2 u pad3 key1 key2 rest \<and>
    length lead = 8 \<and> length pad1 = 3 \<and> length pad2 = 3 \<and> length pad3 = 3 \<and>
    fitsLength n \<and> fitsLength s \<and> fitsLength u \<and>
    \<not> startsWithBOM n \<and> \<not> startsWithBOM s \<and> \<not> startsWithBOM u \<and>
    length key1 = 32 \<and> length key2 = 32 \<and> length rest < 32 \<longrightarrow>
      decodeMint data' =
        \<lparr>name = n, symbol = s, uri = u, mintAddress = bs58_encode key1,
         bondingCurve = bs58_encode key2, user = bs58_encode rest\<rparr>)"
proof (intro conjI impI)
  show "processMintLog logs = None \<longleftrightarrow> \<not> hasMarkerPair logs"
    by (rule processMintLog_None_iff)
next
  assume "length (base64Decode data) \<le> 8"
  then show "decodeMint data =
      \<lparr>name = [], symbol = [], uri = [], mintAddress = [], bondingCurve = [], user = []\<rparr>"
    by (rule decodeMint_short)
next
  assume a: "base64Decode data' = mintLayout lead n pad1 s pad2 u pad3 key1 key2 rest \<and>
    length lead = 8 \<and> length pad1 = 3 \<and> length pad2 = 3 \<and> length pad3 = 3 \<and>
    fitsLength n \<and> fitsLength s \<and> fitsLength u \<and>
    \<not> startsWithBOM n \<and> \<not> startsWithBOM s \<and> \<not> startsWithBOM u \<and>
    length key1 = 32 \<and> length key2 = 32 \<and> length rest < 32"
  then have h: "base64Decode data' = mintLayout lead n pad1 s pad2 u pad3 key1 key2 rest"
    "length lead = 8" "length pad1 = 3" "length pad2 = 3" "length pad3 = 3"
    "fitsLength n" "fitsLength s" "fitsLength u"
    "\<not> startsWithBOM n" "\<not> startsWithBOM s" "\<not> startsWithBOM u"
    "length key1 = 32" "length key2 = 32" "length rest \<le> 32"
    by simp_all
  show "decodeMint data' =
      \<lparr>name = n, symbol = s, uri = u, mintAddress = bs58_encode key1,
       bondingCurve = bs58_encode key2, user = bs58_encode rest\<rparr>"
    by (rule decodeMint_layout [OF h])
qed

text \<open>
  C2. A payload whose buffer is shorter than a field's declared length is to make the
  decoding fail, and \<^verbatim>\<open>processMintLog\<close> is to turn that failure into absent (lines
  109-115 catch the error, report \<open>Failed to decode Mint data\<close> and return \<^verbatim>\<open>null\<close>).
  The code does not do so: this payload has 100 bytes where its fields require 122 (the
  last key has 10 bytes of 32), \<^verbatim>\<open>decodeMint\<close> raises nothing, and the decoder returns
  a partial record, not absent.
\<close>

theorem truncated_payload_not_rejected:
  "length (base64Decode truncatedPayload) = 100 \<and>
   base64Decode truncatedPayload
     = mintLayout leadBytes ''Pump'' [0, 0, 0] ''P'' [0, 0, 0] ''u'' [0, 0, 0] pumpKey keyTwo cutKey \<and>
   length cutKey = 10 \<and>
   processMintLog [programSuccessLine, ''Program data: '' @ truncatedPayload] =
     Some \<lparr>name = ''Pump'', symbol = ''P'', uri = ''u'',
           mintAddress = ''11111111111111111111111111111pump'',
           bondingCurve = ''11111111111111111111111111111112'',
           user = ''1111111111''\<rparr> \<and>
   processMintLog [programSuccessLine, ''Program data: '' @ truncatedPayload] \<noteq> None"
proof -
  have "length (base64Decode truncatedPayload) = 100"
    by (simp add: base64_truncated truncatedBuffer_def)
  moreover have "base64Decode truncatedPayload
     = mintLayout leadBytes ''Pump'' [0, 0, 0] ''P'' [0, 0, 0] ''u'' [0, 0, 0] pumpKey keyTwo cutKey"
    by (simp only: base64_truncated layout_truncated)
  moreover have "processMintLog [programSuccessLine, ''Program data: '' @ truncatedPayload]
      = Some (decodeMint truncatedPayload)"
    by (simp only: processMintLog_pair [OF line_truncated(1)] line_truncated(2))
  ultimately show ?thesis
    by (simp add: decodeMint_truncated key_lengths)
qed

text \<open>
  C3, as amended. A buffer that follows the layout (eight leading bytes, three strings of
  fewer than 256 bytes each behind a length field of four bytes whose first byte is the
  length, three keys of 32 bytes) decodes to a record whose name, symbol and uri are the
  three strings and whose addresses are the base58 encodings of the three keys, provided
  none of the strings starts with the byte order mark U+FEFF.
\<close>

theorem decode_round_trip:
  assumes "base64Decode data = mintLayout lead n pad1 s pad2 u pad3 key1 key2 key3"
    and "length lead = 8"
    and "length pad1 = 3" "length pad2 = 3" "length pad3 = 3"
    and "fitsLength n" "fitsLength s" "fitsLength u"
    and "\<not> startsWithBOM n" "\<not> startsWithBOM s" "\<not> startsWithBOM u"
    and "length key1 = 32" "length key2 = 32" "length key3 = 32"
  shows "decodeMint data =
           \<lparr>name = n, symbol = s, uri = u, mintAddress = bs58_encode key1,
            bondingCurve = bs58_encode key2, user = bs58_encode key3\<rparr>"
proof -
  from assms(14) have "length key3 \<le> 32" by simp
  with assms(1-13) show ?thesis by (rule decodeMint_layout)
qed

text \<open>
  C3 as stated holds for every string. The first string of this buffer is U+FEFF followed
  by \<open>A\<close>; the buffer follows the layout, and the decoded name is \<open>A\<close> alone.
\<close>

theorem decode_round_trip_counterexample:
  "base64Decode markedPayload
     = mintLayout leadBytes markedName [0, 0, 0] ''P'' [0, 0, 0] ''u'' [0, 0, 0] pumpKey keyTwo keyThree \<and>
   fitsLength markedName \<and>
   name (decodeMint markedPayload) = ''A'' \<and>
   name (decodeMint markedPayload) \<noteq> markedName"
proof -
  have r: "readLengthPrefixedString markedBuffer (Some 8) = (''A'', Some 16)"
    by (simp add: markedBuffer_def readLengthPrefixedString_def at_def plus_def slice_def
        toInteger_def TextDecoder_decode_def byteOrderMark_def inRange_def char_of_eq_iff)
  have "name (decodeMint markedPayload) = ''A''"
    unfolding decodeMint_def base64_marked
    by (simp add: plus_def r Let_def split: prod.splits)
  moreover have "''A'' \<noteq> markedName"
    by (simp add: markedName_def)
  moreover have "base64Decode markedPayload
     = mintLayout leadBytes markedName [0, 0, 0] ''P'' [0, 0, 0] ''u'' [0, 0, 0] pumpKey keyTwo keyThree"
    by (simp only: base64_marked layout_marked)
  ultimately show ?thesis
    using fits_examples(4) by simp
qed

theorem decode_round_trip_witness:
  "base64Decode fullPayload
     = mintLayout leadBytes ''Pump'' [0, 0, 0] ''P'' [0, 0, 0] ''u'' [0, 0, 0] pumpKey keyTwo keyThree \<and>
   fitsLength ''Pump'' \<and> \<not> startsWithBOM ''Pump'' \<and> length pumpKey = 32 \<and>
   decodeMint fullPayload =
     \<lparr>name = ''Pump'', symbol = ''P'', uri = ''u'', mintAddress = bs58_encode pumpKey,
      bondingCurve = bs58_encode keyTwo, user = bs58_encode keyThree\<rparr> \<and>
   bs58_encode pumpKey = ''11111111111111111111111111111pump''"
proof -
  have l: "base64Decode fullPayload
     = mintLayout leadBytes ''Pump'' [0, 0, 0] ''P'' [0, 0, 0] ''u'' [0, 0, 0] pumpKey keyTwo keyThree"
    by (simp only: base64_full layout_full)
  have "decodeMint fullPayload =
     \<lparr>name = ''Pump'', symbol = ''P'', uri = ''u'', mintAddress = bs58_encode pumpKey,
      bondingCurve = bs58_encode keyTwo, user = bs58_encode keyThree\<rparr>"
    by (rule decode_round_trip [OF l key_lengths(1) _ _ _ fits_examples(1-3) no_BOM_examples
          key_lengths(2-4)]) simp_all
  with l show ?thesis
    by (simp add: fits_examples no_BOM_examples key_lengths bs58_examples)
qed

section \<open>Properties of extractTransactionInfo\<close>

lemma eti_returned:
  "tryOnce sig (rpc sig attempt) = Returned r \<Longrightarrow>
     extractTransactionInfo rpc sig attempt = (r, [GetParsedTransaction sig])"
  by (subst extractTransactionInfo.simps) simp

lemma eti_last:
  "failing (tryOnce sig (rpc sig attempt)) \<Longrightarrow> 3 \<le> attempt \<Longrightarrow>
     extractTransactionInfo rpc sig attempt = (Null, [GetParsedTransaction sig])"
  by (subst extractTransactionInfo.simps) (auto simp: failing_def)

lemma not_failing: "\<not> failing a \<Longrightarrow> \<exists>r. a = Returned r"
  by (cases a) (auto simp: failing_def)

lemma eti_first:
  "failing (tryOnce sig (rpc sig 1)) \<Longrightarrow>
     extractTransactionInfo rpc sig 1 =
       (fst (extractTransactionInfo rpc sig 2),
        [GetParsedTransaction sig, Pause 100] @ snd (extractTransactionInfo rpc sig 2))"
  by (subst extractTransactionInfo.simps)
     (auto simp: failing_def numeral_2_eq_2 split: prod.splits)

lemma eti_second:
  "failing (tryOnce sig (rpc sig 2)) \<Longrightarrow>
     extractTransactionInfo rpc sig 2 =
       (fst (extractTransactionInfo rpc sig 3),
        [GetParsedTransaction sig, Pause 100] @ snd (extractTransactionInfo rpc sig 3))"
  by (subst extractTransactionInfo.simps) (auto simp: failing_def split: prod.splits)

text \<open>The whole behaviour of a call that starts at attempt 1.\<close>

lemma eti_cases:
  "extractTransactionInfo rpc sig 1 =
     (case tryOnce sig (rpc sig 1) of
        Returned r \<Rightarrow> (r, attempts sig 1)
      | _ \<Rightarrow>
        (case tryOnce sig (rpc sig 2) of
           Returned r \<Rightarrow> (r, attempts sig 2)
         | _ \<Rightarrow>
           (case tryOnce sig (rpc sig 3) of
              Returned r \<Rightarrow> (r, attempts sig 3)
            | _ \<Rightarrow> (Null, attempts sig 3))))"
proof (cases "failing (tryOnce sig (rpc sig 1))")
  case False
  then obtain r where r: "tryOnce sig (rpc sig 1) = Returned r" using not_failing by blast
  from eti_returned [where rpc = rpc and attempt = 1, OF this] r show ?thesis
    by (simp add: attempts_def)
next
  case f1: True
  show ?thesis
  proof (cases "failing (tryOnce sig (rpc sig 2))")
    case False
    then obtain r where r: "tryOnce sig (rpc sig 2) = Returned r" using not_failing by blast
    from eti_returned [where rpc = rpc and attempt = 2, OF this]
      eti_first [where rpc = rpc, OF f1] f1 r
    show ?thesis
      by (auto simp: attempts_def failing_def)
  next
    case f2: True
    show ?thesis
    proof (cases "failing (tryOnce sig (rpc sig 3))")
      case False
      then obtain r where r: "tryOnce sig (rpc sig 3) = Returned r" using not_failing by blast
      from eti_returned [where rpc = rpc and attempt = 3, OF this]
        eti_first [where rpc = rpc, OF f1] eti_second [where rpc = rpc, OF f2] f1 f2 r
      show ?thesis
        by (auto simp: attempts_def failing_def numeral_3_eq_3)
    next
      case f3: True
      from eti_last [where rpc = rpc and attempt = 3, OF this]
        eti_first [where rpc = rpc, OF f1] eti_second [where rpc = rpc, OF f2] f1 f2 f3
      show ?thesis
        by (auto simp: attempts_def failing_def numeral_3_eq_3)
    qed
  qed
qed

lemma fails_failing: "fails reply \<Longrightarrow> failing (tryOnce sig reply)"
  by (auto simp: fails_def metadataAbsent_def tryOnce_def failing_def
      split: RpcReply.splits option.splits)

lemma eti_one_of_three:
  "\<exists>n. 1 \<le> n \<and> n \<le> 3 \<and> snd (extractTransactionInfo rpc sig 1) = attempts sig n"
proof -
  have "snd (extractTransactionInfo rpc sig 1) = attempts sig 1
      \<or> snd (extractTransactionInfo rpc sig 1) = attempts sig 2
      \<or> snd (extractTransactionInfo rpc sig 1) = attempts sig 3"
    by (subst (1 2 3) eti_cases) (simp split: Attempt.splits)
  then show ?thesis
    by (metis one_le_numeral order_refl numeral_le_iff semiring_norm(68,72,73))
qed

text \<open>
  C5. A call for a signature makes one, two or three requests, with a pause of exactly
  100 milliseconds before each request but the first. An attempt that returns ends the
  call at once with its result: the first after one request, the second after two. The
  call tries again whenever the request raised or the metadata was absent (and also when
  formatting the date raised), so an operation that always fails is requested exactly
  three times and then yields the failed outcome \<^verbatim>\<open>null\<close>, and one that fails twice and
  then succeeds yields the result of the third attempt. The last conjunct gives the
  result and the requests of the call in every case.
\<close>

theorem retry_budget:
  "(\<exists>n. 1 \<le> n \<and> n \<le> 3 \<and> snd (extractTransactionInfo rpc sig 1) = attempts sig n) \<and>
   (tryOnce sig (rpc sig 1) = Returned r1 \<longrightarrow>
      extractTransactionInfo rpc sig 1 = (r1, attempts sig 1)) \<and>
   (fails (rpc sig 1) \<longrightarrow>
      (\<exists>n. 2 \<le> n \<and> n \<le> 3 \<and> snd (extractTransactionInfo rpc sig 1) = attempts sig n)) \<and>
   (fails (rpc sig 1) \<and> tryOnce sig (rpc sig 2) = Returned r2 \<longrightarrow>
      extractTransactionInfo rpc sig 1 = (r2, attempts sig 2)) \<and>
   (fails (rpc sig 1) \<and> fails (rpc sig 2) \<longrightarrow>
      snd (extractTransactionInfo rpc sig 1) = attempts sig 3) \<and>
   (fails (rpc sig 1) \<and> fails (rpc sig 2) \<and> fails (rpc sig 3) \<longrightarrow>
      extractTransactionInfo rpc sig 1 = (Null, attempts sig 3)) \<and>
   (fails (rpc sig 1) \<and> fails (rpc sig 2) \<and> tryOnce sig (rpc sig 3) = Returned r \<longrightarrow>
      extractTransactionInfo rpc sig 1 = (r, attempts sig 3)) \<and>
   attempts sig 1 = [GetParsedTransaction sig] \<and>
   attempts sig 2 = [GetParsedTransaction sig, Pause 100, GetParsedTransaction sig] \<and>
   attempts sig 3 =
     [GetParsedTransaction sig, Pause 100, GetParsedTransaction sig, Pause 100,
      GetParsedTransaction sig] \<and>
   extractTransactionInfo rpc sig 1 =
     (case tryOnce sig (rpc sig 1) of
        Returned a \<Rightarrow> (a, attempts sig 1)
      | _ \<Rightarrow>
        (case tryOnce sig (rpc sig 2) of
           Returned a \<Rightarrow> (a, attempts sig 2)
         | _ \<Rightarrow>
           (case tryOnce sig (rpc sig 3) of
              Returned a \<Rightarrow> (a, attempts sig 3)
            | _ \<Rightarrow> (Null, attempts sig 3))))"
proof (intro conjI impI)
  show "\<exists>n. 1 \<le> n \<and> n \<le> 3 \<and> snd (extractTransactionInfo rpc sig 1) = attempts sig n"
    by (rule eti_one_of_three)
next
  assume "tryOnce sig (rpc sig 1) = Returned r1"
  then show "extractTransactionInfo rpc sig 1 = (r1, attempts sig 1)"
    by (subst eti_cases) simp
next
  assume "fails (rpc sig 1)"
  then have "failing (tryOnce sig (rpc sig 1))" by (rule fails_failing)
  then have "snd (extractTransactionInfo rpc sig 1) = attempts sig 2
      \<or> snd (extractTransactionInfo rpc sig 1) = attempts sig 3"
    by (subst (1 2) eti_cases) (auto simp: failing_def split: Attempt.splits)
  then show "\<exists>n. 2 \<le> n \<and> n \<le> 3 \<and> snd (extractTransactionInfo rpc sig 1) = attempts sig n"
    by (metis order_refl numeral_le_iff semiring_norm(68,72,73))
next
  assume "fails (rpc sig 1) \<and> tryOnce sig (rpc sig 2) = Returned r2"
  then have "failing (tryOnce sig (rpc sig 1))" "tryOnce sig (rpc sig 2) = Returned r2"
    by (simp_all add: fails_failing)
  then show "extractTransactionInfo rpc sig 1 = (r2, attempts sig 2)"
    by (subst eti_cases) (auto simp: failing_def split: Attempt.splits)
next
  assume "fails (rpc sig 1) \<and> fails (rpc sig 2)"
  then have "failing (tryOnce sig (rpc sig 1))" "failing (tryOnce sig (rpc sig 2))"
    by (simp_all add: fails_failing)
  then show "snd (extractTransactionInfo rpc sig 1) = attempts sig 3"
    by (subst eti_cases) (auto simp: failing_def split: Attempt.splits)
next
  assume "fails (rpc sig 1) \<and> fails (rpc sig 2) \<and> fails (rpc sig 3)"
  then have "failing (tryOnce sig (rpc sig 1))" "failing (tryOnce sig (rpc sig 2))"
    "failing (tryOnce sig (rpc sig 3))"
    by (simp_all add: fails_failing)
  then show "extractTransactionInfo rpc sig 1 = (Null, attempts sig 3)"
    by (subst eti_cases) (auto simp: failing_def split: Attempt.splits)
next
  assume "fails (rpc sig 1) \<and> fails (rpc sig 2) \<and> tryOnce sig (rpc sig 3) = Returned r"
  then have "failing (tryOnce sig (rpc sig 1))" "failing (tryOnce sig (rpc sig 2))"
    "tryOnce sig (rpc sig 3) = Returned r"
    by (simp_all add: fails_failing)
  then show "extractTransactionInfo rpc sig 1 = (r, attempts sig 3)"
    by (subst eti_cases) (auto simp: failing_def split: Attempt.splits)
next
  show "attempts sig 1 = [GetParsedTransaction sig]"
    by (simp add: attempts_def)
next
  show "attempts sig 2 = [GetParsedTransaction sig, Pause 100, GetParsedTransaction sig]"
    by (simp add: attempts_def)
next
  show "attempts sig 3 =
     [GetParsedTransaction sig, Pause 100, GetParsedTransaction sig, Pause 100,
      GetParsedTransaction sig]"
    by (simp add: attempts_def numeral_2_eq_2)
next
  show "extractTransactionInfo rpc sig 1 =
     (case tryOnce sig (rpc sig 1) of
        Returned a \<Rightarrow> (a, attempts sig 1)
      | _ \<Rightarrow>
        (case tryOnce sig (rpc sig 2) of
           Returned a \<Rightarrow> (a, attempts sig 2)
         | _ \<Rightarrow>
           (case tryOnce sig (rpc sig 3) of
              Returned a \<Rightarrow> (a, attempts sig 3)
            | _ \<Rightarrow> (Null, attempts sig 3))))"
    by (rule eti_cases)
qed

theorem retry_budget_witness:
  "tryOnce ''sig'' (promptLedger ''sig'' 1) = Returned Skipped \<and>
   extractTransactionInfo promptLedger ''sig'' 1 = (Skipped, [GetParsedTransaction ''sig'']) \<and>
   fails (slowLedger ''sig'' 1) \<and> tryOnce ''sig'' (slowLedger ''sig'' 2) = Returned Skipped \<and>
   extractTransactionInfo slowLedger ''sig'' 1 =
     (Skipped, [GetParsedTransaction ''sig'', Pause 100, GetParsedTransaction ''sig'']) \<and>
   fails (flakyLedger ''sig'' 1) \<and> fails (flakyLedger ''sig'' 2) \<and>
   tryOnce ''sig'' (flakyLedger ''sig'' 3) = Returned Skipped \<and>
   extractTransactionInfo flakyLedger ''sig'' 1 =
     (Skipped,
      [GetParsedTransaction ''sig'', Pause 100, GetParsedTransaction ''sig'', Pause 100,
       GetParsedTransaction ''sig'']) \<and>
   fails (deadLedger ''sig'' 1) \<and> fails (deadLedger ''sig'' 2) \<and> fails (deadLedger ''sig'' 3) \<and>
   extractTransactionInfo deadLedger ''sig'' 1 =
     (Null,
      [GetParsedTransaction ''sig'', Pause 100, GetParsedTransaction ''sig'', Pause 100,
       GetParsedTransaction ''sig''])"
proof -
  have plain: "tryOnce ''sig'' (Returns (Some plainTransaction)) = Returned Skipped"
    by (simp add: tryOnce_def plainTransaction_def extracted_def
        formatBlockTime_def toISOString_def startsWith_def programSuccessLine_def)
  have p: "tryOnce ''sig'' (promptLedger ''sig'' 1) = Returned Skipped"
    using plain by (simp add: promptLedger_def)
  have w: "fails (slowLedger ''sig'' 1)" "tryOnce ''sig'' (slowLedger ''sig'' 2) = Returned Skipped"
    using plain by (simp_all add: slowLedger_def fails_def metadataAbsent_def)
  have f: "fails (flakyLedger ''sig'' 1)" "fails (flakyLedger ''sig'' 2)"
    by (simp_all add: fails_def flakyLedger_def metadataAbsent_def)
  have s: "tryOnce ''sig'' (flakyLedger ''sig'' 3) = Returned Skipped"
    using plain by (simp add: flakyLedger_def)
  have d: "fails (deadLedger ''sig'' 1)" "fails (deadLedger ''sig'' 2)" "fails (deadLedger ''sig'' 3)"
    by (simp_all add: fails_def deadLedger_def)
  have a: "attempts ''sig'' 1 = [GetParsedTransaction ''sig'']"
    "attempts ''sig'' 2 = [GetParsedTransaction ''sig'', Pause 100, GetParsedTransaction ''sig'']"
    "attempts ''sig'' 3 =
      [GetParsedTransaction ''sig'', Pause 100, GetParsedTransaction ''sig'', Pause 100,
       GetParsedTransaction ''sig'']"
    by (simp_all add: attempts_def numeral_2_eq_2)
  from retry_budget [of promptLedger "''sig''" Skipped] p
  have "extractTransactionInfo promptLedger ''sig'' 1 = (Skipped, attempts ''sig'' 1)"
    by blast
  then have e1: "extractTransactionInfo promptLedger ''sig'' 1
      = (Skipped, [GetParsedTransaction ''sig''])"
    by (simp only: a)
  from retry_budget [of slowLedger "''sig''" _ Skipped] w
  have "extractTransactionInfo slowLedger ''sig'' 1 = (Skipped, attempts ''sig'' 2)"
    by blast
  then have e2: "extractTransactionInfo slowLedger ''sig'' 1
      = (Skipped, [GetParsedTransaction ''sig'', Pause 100, GetParsedTransaction ''sig''])"
    by (simp only: a)
  from retry_budget [of flakyLedger "''sig''" _ _ Skipped] f s
  have "extractTransactionInfo flakyLedger ''sig'' 1 = (Skipped, attempts ''sig'' 3)"
    by blast
  then have e3: "extractTransactionInfo flakyLedger ''sig'' 1
      = (Skipped,
         [GetParsedTransaction ''sig'', Pause 100, GetParsedTransaction ''sig'', Pause 100,
          GetParsedTransaction ''sig''])"
    by (simp only: a)
  from retry_budget [of deadLedger "''sig''"] d
  have "extractTransactionInfo deadLedger ''sig'' 1 = (Null, attempts ''sig'' 3)"
    by blast
  then have e4: "extractTransactionInfo deadLedger ''sig'' 1
      = (Null,
         [GetParsedTransaction ''sig'', Pause 100, GetParsedTransaction ''sig'', Pause 100,
          GetParsedTransaction ''sig''])"
    by (simp only: a)
  from p w f s d e1 e2 e3 e4 show ?thesis
    by (intro conjI)
qed

lemma processMintLog_full: "processMintLog mintLogs = Some (decodeMint fullPayload)"
  unfolding mintLogs_def
  by (simp only: processMintLog_pair [OF line_full(1)] line_full(2))

text \<open>
  What the function makes of a transaction with log messages that hold a mint event with
  a mint address.
\<close>

lemma extracted_minted:
  assumes "processMintLog logs = Some m" "mintAddress m \<noteq> []"
  shows "extracted sig tx logs =
           (case blockTime tx of
              None \<Rightarrow> Inr (Resolved \<lparr>signature = sig, tokenAddress = mintAddress m, timestamp = None\<rparr>)
            | Some seconds \<Rightarrow>
                if seconds = 0 then
                  Inr (Resolved \<lparr>signature = sig, tokenAddress = mintAddress m, timestamp = None\<rparr>)
                else if \<bar>seconds * 1000\<bar> \<le> 8640000000000000 then
                  Inr (Resolved \<lparr>signature = sig, tokenAddress = mintAddress m,
                                  timestamp = Some (seconds * 1000)\<rparr>)
                else Inl RangeError)"
  using assms
  by (simp add: extracted_def formatBlockTime_def toISOString_def split: option.splits)

text \<open>
  C8. The transaction is fetched at the first attempt, its log decodes to an event with
  the mint address \<open>11111111111111111111111111111pump\<close>, and the ledger gives the block
  time 0, the first second of 1970. The outcome is resolved, but its timestamp is absent,
  as it is when the ledger gives no block time at all; a block time of 1700000000 seconds
  gives the timestamp of that second.
\<close>

theorem block_time_zero_dropped:
  "extractResult (mintLedger (Some 0)) ''sig'' =
     Resolved \<lparr>signature = ''sig'', tokenAddress = ''11111111111111111111111111111pump'',
               timestamp = None\<rparr> \<and>
   extractResult (mintLedger None) ''sig'' =
     Resolved \<lparr>signature = ''sig'', tokenAddress = ''11111111111111111111111111111pump'',
               timestamp = None\<rparr> \<and>
   extractResult (mintLedger (Some 1700000000)) ''sig'' =
     Resolved \<lparr>signature = ''sig'', tokenAddress = ''11111111111111111111111111111pump'',
               timestamp = Some 1700000000000\<rparr>"
proof -
  have m: "processMintLog mintLogs = Some (decodeMint fullPayload)"
    by (rule processMintLog_full)
  have a: "mintAddress (decodeMint fullPayload) = ''11111111111111111111111111111pump''"
    by (simp add: decodeMint_full)
  then have ne: "mintAddress (decodeMint fullPayload) \<noteq> []"
    by simp
  have "tryOnce ''sig'' (mintLedger seconds ''sig'' 1) =
      (case extracted ''sig'' (mintTransaction seconds) mintLogs of
         Inl e \<Rightarrow> Caught
       | Inr result \<Rightarrow> Returned result)" for seconds
    by (simp add: tryOnce_def mintLedger_def mintTransaction_def)
  then have t: "tryOnce ''sig'' (mintLedger seconds ''sig'' 1) =
      Returned (Resolved \<lparr>signature = ''sig'', tokenAddress = ''11111111111111111111111111111pump'',
                          timestamp = stamp\<rparr>)"
    if "seconds = None \<and> stamp = None \<or> seconds = Some 0 \<and> stamp = None
        \<or> seconds = Some 1700000000 \<and> stamp = Some 1700000000000" for seconds stamp
    using that by (auto simp: extracted_minted [OF m ne] a mintTransaction_def)
  have "fst (extractTransactionInfo (mintLedger seconds) ''sig'' 1) =
      Resolved \<lparr>signature = ''sig'', tokenAddress = ''11111111111111111111111111111pump'',
                timestamp = stamp\<rparr>"
    if "seconds = None \<and> stamp = None \<or> seconds = Some 0 \<and> stamp = None
        \<or> seconds = Some 1700000000 \<and> stamp = Some 1700000000000" for seconds stamp
    using eti_returned [where rpc = "mintLedger seconds" and attempt = 1, OF t [OF that]]
    by simp
  then show ?thesis
    by (simp add: extractResult_def)
qed

section \<open>Properties of the worker pool\<close>

lemma poolInv_empty: "poolInv items handler emptyPool"
  by (simp add: poolInv_def emptyPool_def)

lemma poolInv_workerLoop:
  "poolInv items handler p \<Longrightarrow> poolInv items handler (workerLoop items p)"
  by (auto simp: poolInv_def workerLoop_def simp del: mset_upt)

lemma poolInv_startWorkers:
  "poolInv items handler p \<Longrightarrow> poolInv items handler (startWorkers k items p)"
  by (induction k) (simp_all add: poolInv_workerLoop)

lemma mset_remove_nth:
  "k < length xs \<Longrightarrow> mset (take k xs @ drop (Suc k) xs) + {#xs ! k#} = mset xs"
  by (metis add_mset_add_single append_take_drop_id Cons_nth_drop_Suc mset.simps(2) mset_append union_mset_add_mset_right)

lemma poolInv_resume:
  assumes "poolInv items handler p" "k < length (inFlight p)"
  shows "poolInv items handler (resume items handler k p)"
proof -
  from assms obtain order where o: "results p = map (\<lambda>i. handler (items ! i)) order"
    "mset order + mset (inFlight p) = mset [0 ..< index p]" "index p \<le> length items"
    by (auto simp: poolInv_def)
  let ?q = "p\<lparr>results := results p @ [handler (items ! (inFlight p ! k))],
          inFlight := take k (inFlight p) @ drop (Suc k) (inFlight p)\<rparr>"
  have "results ?q = map (\<lambda>i. handler (items ! i)) (order @ [inFlight p ! k])"
    using o(1) by simp
  moreover have "mset (order @ [inFlight p ! k]) + mset (inFlight ?q) = mset [0 ..< index ?q]"
  proof -
    have "mset (order @ [inFlight p ! k]) + mset (inFlight ?q)
        = mset order + (mset (take k (inFlight p) @ drop (Suc k) (inFlight p)) + {#inFlight p ! k#})"
      by simp
    also have "\<dots> = mset order + mset (inFlight p)"
      by (simp only: mset_remove_nth [OF assms(2)])
    finally show ?thesis
      using o(2) by simp
  qed
  ultimately have "poolInv items handler ?q"
    unfolding poolInv_def using o(3) by (intro conjI exI [of _ "order @ [inFlight p ! k]"]) simp_all
  then show ?thesis
    unfolding resume_def by (rule poolInv_workerLoop)
qed


lemma poolInv_poolRun:
  "poolInv items handler p \<Longrightarrow> \<forall>q \<in> set (poolRun items handler sched p). poolInv items handler q"
proof (induction items handler sched p rule: poolRun.induct)
  case (1 items handler sched p)
  show ?case
  proof (cases "inFlight p = []")
    case True
    with "1.prems" show ?thesis by (subst poolRun.simps) simp
  next
    case False
    then have "pick sched (length (inFlight p)) < length (inFlight p)"
      by (simp add: pick_def split: list.splits)
    with "1.prems" have "poolInv items handler (resume items handler (pick sched (length (inFlight p))) p)"
      by (rule poolInv_resume)
    with "1.IH" [OF False] "1.prems" False show ?thesis
      by (subst poolRun.simps) simp
  qed
qed

lemma last_poolRun_idle: "inFlight (last (poolRun items handler sched p)) = []"
proof (induction items handler sched p rule: poolRun.induct)
  case (1 items handler sched p)
  show ?case
  proof (cases "inFlight p = []")
    case True
    then show ?thesis by (subst poolRun.simps) simp
  next
    case False
    have "poolRun items handler (tl sched) (resume items handler (pick sched (length (inFlight p))) p) \<noteq> []"
      by (subst poolRun.simps) simp
    with "1.IH" [OF False] False show ?thesis
      by (subst poolRun.simps) simp
  qed
qed

lemma settled_workerLoop: "settled items (workerLoop items p)"
  by (simp add: settled_def workerLoop_def)

lemma settled_poolRun:
  "settled items p \<Longrightarrow> settled items (last (poolRun items handler sched p))"
proof (induction items handler sched p rule: poolRun.induct)
  case (1 items handler sched p)
  show ?case
  proof (cases "inFlight p = []")
    case True
    with "1.prems" show ?thesis by (subst poolRun.simps) simp
  next
    case False
    have ne: "poolRun items handler (tl sched) (resume items handler (pick sched (length (inFlight p))) p) \<noteq> []"
      by (subst poolRun.simps) simp
    have "settled items (resume items handler (pick sched (length (inFlight p))) p)"
      unfolding resume_def by (rule settled_workerLoop)
    with "1.IH" [OF False] False ne show ?thesis
      by (subst poolRun.simps) simp
  qed
qed

lemma poolRun_nonempty: "poolRun items handler sched p \<noteq> []"
  by (subst poolRun.simps) simp

lemma last_poolStates:
  "last (poolStates items handler concurrency sched)
   = last (poolRun items handler sched (startWorkers (nat concurrency) items emptyPool))"
  by (simp add: poolStates_def poolRun_nonempty)

lemma inFlight_workerLoop: "length (inFlight (workerLoop items p)) \<le> Suc (length (inFlight p))"
  by (simp add: workerLoop_def)

lemma inFlight_startWorkers:
  "length (inFlight (startWorkers k items p)) \<le> k + length (inFlight p)"
proof (induction k)
  case 0
  then show ?case by simp
next
  case (Suc k)
  with inFlight_workerLoop [of items "startWorkers k items p"] show ?case by simp
qed

lemma inFlight_start_empty: "length (inFlight (startWorkers k items emptyPool)) \<le> k"
  using inFlight_startWorkers [of k items emptyPool] by (simp add: emptyPool_def)

lemma inFlight_resume:
  "k < length (inFlight p) \<Longrightarrow> length (inFlight (resume items handler k p)) \<le> length (inFlight p)"
  unfolding resume_def workerLoop_def by (cases "inFlight p") auto

lemma inFlight_poolRun:
  "\<forall>q \<in> set (poolRun items handler sched p). length (inFlight q) \<le> length (inFlight p)"
proof (induction items handler sched p rule: poolRun.induct)
  case (1 items handler sched p)
  show ?case
  proof (cases "inFlight p = []")
    case True
    then show ?thesis by (subst poolRun.simps) simp
  next
    case False
    then have "pick sched (length (inFlight p)) < length (inFlight p)"
      by (simp add: pick_def split: list.splits)
    from inFlight_resume [OF this, of items handler] "1.IH" [OF False] False show ?thesis
      by (subst poolRun.simps) fastforce
  qed
qed

text \<open>
  C4, as amended. For every list of items, every handler, every order in which the
  handler calls complete and every concurrency of at least one, \<^verbatim>\<open>withConcurrency\<close>
  returns exactly one result per input item: the results are the handler's values at a
  rearrangement of the indices \<open>0, \<dots>, length items - 1\<close>, so no index is taken twice
  and none is skipped, also when there are more workers than items.
\<close>

theorem one_result_per_item:
  assumes "1 \<le> concurrency"
  shows "(\<exists>order. mset order = mset [0 ..< length items] \<and>
           withConcurrency items handler concurrency sched = map (\<lambda>i. handler (items ! i)) order) \<and>
         length (withConcurrency items handler concurrency sched) = length items"
proof -
  let ?start = "startWorkers (nat concurrency) items (emptyPool :: 'b Pool)"
  let ?final = "last (poolRun items handler sched ?start)"
  from assms obtain k where k: "nat concurrency = Suc k"
    by (cases "nat concurrency") auto
  have "settled items ?start"
    unfolding k by (simp add: settled_workerLoop)
  then have s: "settled items ?final"
    by (rule settled_poolRun)
  have "poolInv items handler ?start"
    by (rule poolInv_startWorkers [OF poolInv_empty])
  then have "poolInv items handler ?final"
    using poolInv_poolRun [of items handler ?start sched] poolRun_nonempty [of items handler sched ?start]
    by (meson last_in_set)
  then obtain order where o: "results ?final = map (\<lambda>i. handler (items ! i)) order"
      "mset order + mset (inFlight ?final) = mset [0 ..< index ?final]" "index ?final \<le> length items"
    by (auto simp: poolInv_def)
  have idle: "inFlight ?final = []"
    by (rule last_poolRun_idle)
  with s o(3) have "index ?final = length items"
    by (simp add: settled_def)
  with o(2) idle have "mset order = mset [0 ..< length items]"
    by simp
  with o(1) have *: "\<exists>order. mset order = mset [0 ..< length items] \<and>
           withConcurrency items handler concurrency sched = map (\<lambda>i. handler (items ! i)) order"
    unfolding withConcurrency_def last_poolStates by blast
  then obtain order' where "mset order' = mset [0 ..< length items]"
    "withConcurrency items handler concurrency sched = map (\<lambda>i. handler (items ! i)) order'"
    by blast
  then have "length (withConcurrency items handler concurrency sched) = length items"
    by (metis length_map length_upt mset_eq_length minus_nat.diff_0)
  with * show ?thesis by blast
qed

text \<open>
  C4 as stated puts no condition on the concurrency. With a concurrency of zero, or the
  negative one that the configuration file can supply, no worker is started and the call
  returns no result for two items.
\<close>

theorem one_result_per_item_counterexample:
  "withConcurrency [''a'', ''b''] rev 0 [] = [] \<and>
   withConcurrency [''a'', ''b''] rev (CONCURRENCY (Some (- 1))) [] = [] \<and>
   length (withConcurrency [''a'', ''b''] rev 0 []) \<noteq> length [''a'', ''b'']"
  by (simp add: withConcurrency_def poolStates_def CONCURRENCY_def emptyPool_def poolRun.simps)

theorem one_result_per_item_witness:
  "(1 :: int) \<le> 7 \<and>
   length (withConcurrency fiveItems rev 7 [4, 1, 0, 1]) = length fiveItems \<and>
   withConcurrency fiveItems rev 7 [4, 1, 0, 1] = [''e'', ''b'', ''a'', ''d'', ''c'']"
proof -
  have c: "(1 :: int) \<le> 7" by simp
  have r: "withConcurrency fiveItems rev 7 [4, 1, 0, 1] = [''e'', ''b'', ''a'', ''d'', ''c'']"
    by code_simp
  from one_result_per_item [OF c, of fiveItems rev "[4, 1, 0, 1]"]
  have "length (withConcurrency fiveItems rev 7 [4, 1, 0, 1]) = length fiveItems"
    by blast
  with c r show ?thesis by blast
qed

text \<open>
  C9. For every list of items, every completion order and every concurrency of at least
  one, the number of handler calls in flight never exceeds the concurrency, in any state
  the pool passes through, from the start of the first worker to the end of the last; the
  concurrency is 25 when the configuration gives none. A handler call has at most one
  fetch outstanding at a time (\<^verbatim>\<open>extractTransactionInfo\<close> awaits each attempt before the
  next), so this bounds the fetches in flight.
\<close>

theorem in_flight_capped:
  fixes handler :: "'a \<Rightarrow> 'r"
  assumes "1 \<le> concurrency"
  shows "(\<forall>p \<in> set (poolStates items handler concurrency sched).
            int (length (inFlight p)) \<le> concurrency) \<and>
         CONCURRENCY None = 25"
proof -
  have "int (length (inFlight p)) \<le> concurrency"
    if "p \<in> set (poolStates items handler concurrency sched)" for p
  proof -
    from that
    consider k where "k < nat concurrency" "p = startWorkers k items emptyPool"
    | "p \<in> set (poolRun items handler sched (startWorkers (nat concurrency) items emptyPool))"
    by (auto simp: poolStates_def)
  then show ?thesis
  proof cases
    case 1
    have "length (inFlight p) \<le> k"
      unfolding 1(2) by (rule inFlight_start_empty)
    with 1(1) show ?thesis by linarith
  next
    case 2
    with inFlight_poolRun [of items handler sched "startWorkers (nat concurrency) items emptyPool"]
    have "length (inFlight p)
        \<le> length (inFlight (startWorkers (nat concurrency) items (emptyPool :: 'r Pool)))"
      by blast
    also have "\<dots> \<le> nat concurrency"
      by (rule inFlight_start_empty)
    finally have "length (inFlight p) \<le> nat concurrency" .
    with assms show ?thesis by linarith
  qed
  qed
  then show ?thesis by (simp add: CONCURRENCY_def)
qed

theorem in_flight_capped_witness:
  "(1 :: int) \<le> 2 \<and>
   list_all (\<lambda>p. int (length (inFlight p)) \<le> 2) (poolStates fiveItems rev 2 [1, 1, 0, 1]) \<and>
   map (\<lambda>p. length (inFlight p)) (poolStates fiveItems rev 2 [1, 1, 0, 1]) = [0, 1, 2, 2, 2, 2, 1, 0]"
proof -
  have c: "(1 :: int) \<le> 2" by simp
  have m: "map (\<lambda>p. length (inFlight p)) (poolStates fiveItems rev 2 [1, 1, 0, 1])
      = [0, 1, 2, 2, 2, 2, 1, 0]"
    by code_simp
  from in_flight_capped [OF c, of fiveItems rev "[1, 1, 0, 1]"]
  have "list_all (\<lambda>p. int (length (inFlight p)) \<le> 2) (poolStates fiveItems rev 2 [1, 1, 0, 1])"
    by (simp add: list_all_iff)
  with c m show ?thesis by blast
qed

section \<open>Properties of the signature loop\<close>

lemma fetchLoop_follows:
  "\<exists>new. fetchLoop src target bs cursor fetched reqs = (fetched @ concat (map sigs new), reqs @ new)
     \<and> follows src target bs cursor (length fetched) (length reqs) new"
proof (induction src target bs cursor fetched reqs rule: fetchLoop.induct)
  case (1 src target bs cursor fetched reqs)
  show ?case
  proof (cases "length fetched < target")
    case False
    then have "fetchLoop src target bs cursor fetched reqs = (fetched, reqs)"
      by (subst fetchLoop.simps) simp
    with False show ?thesis
      by (intro exI [of _ "[]"]) simp
  next
    case True
    let ?lim = "min bs (target - length fetched)"
    let ?page = "src (length reqs) cursor ?lim"
    let ?r = "\<lparr>before = cursor, limit = ?lim, sigs = ?page\<rparr>"
    show ?thesis
    proof (cases "?page = []")
      case empty: True
      have "fetchLoop src target bs cursor fetched reqs = (fetched, reqs @ [?r])"
        using True empty
        by (subst fetchLoop.simps) (simp add: Let_def)
      then have "fetchLoop src target bs cursor fetched reqs
          = (fetched @ concat (map sigs [?r]), reqs @ [?r])"
        using empty by simp
      moreover have "follows src target bs cursor (length fetched) (length reqs) [?r]"
        using True empty by simp
      ultimately show ?thesis by blast
    next
      case full: False
      have step: "fetchLoop src target bs cursor fetched reqs
          = fetchLoop src target bs (last ?page) (fetched @ ?page) (reqs @ [?r])"
        using True full
        by (subst fetchLoop.simps) (simp add: Let_def)
      from "1.IH" [OF True refl refl refl refl full]
      obtain new where new:
        "fetchLoop src target bs (last ?page) (fetched @ ?page) (reqs @ [?r])
           = ((fetched @ ?page) @ concat (map sigs new), (reqs @ [?r]) @ new)"
        "follows src target bs (last ?page) (length (fetched @ ?page)) (length (reqs @ [?r])) new"
        by auto
      have f: "follows src target bs cursor (length fetched) (length reqs) (?r # new)"
        using True full new(2) by simp
      have "fetchLoop src target bs cursor fetched reqs
          = (fetched @ concat (map sigs (?r # new)), reqs @ ?r # new)"
        using step new(1) by simp
      with f show ?thesis by blast
    qed
  qed
qed


lemma collectedBefore_Cons:
  "collectedBefore (r # rs) (Suc j) = length (sigs r) + collectedBefore rs j"
  by (simp add: collectedBefore_def)

lemma collectedBefore_0: "collectedBefore rs 0 = 0"
  by (simp add: collectedBefore_def)

lemma follows_ConsD:
  assumes "follows src target bs cursor c k (r # rs)"
  shows "c < target" "before r = cursor" "limit r = min bs (target - c)"
    "sigs r = src k cursor (min bs (target - c))"
    "sigs r = [] \<Longrightarrow> rs = []"
    "sigs r \<noteq> [] \<Longrightarrow> follows src target bs (last (sigs r)) (c + length (sigs r)) (Suc k) rs"
proof -
  from assms have *: "c < target \<and> before r = cursor \<and> limit r = min bs (target - c) \<and>
     sigs r = src k cursor (limit r) \<and>
     (if sigs r = [] then rs = []
      else follows src target bs (last (sigs r)) (c + length (sigs r)) (Suc k) rs)"
    by (rule iffD1 [OF follows.simps(2)])
  then show "c < target" "before r = cursor" "limit r = min bs (target - c)"
    by blast+
  from * show "sigs r = src k cursor (min bs (target - c))"
    by metis
  from * show "sigs r = [] \<Longrightarrow> rs = []"
    by metis
  from * show "sigs r \<noteq> [] \<Longrightarrow> follows src target bs (last (sigs r)) (c + length (sigs r)) (Suc k) rs"
    by metis
qed

lemma follows_tail:
  "follows src target bs cursor c k (r # rs) \<Longrightarrow> rs \<noteq> [] \<Longrightarrow>
     sigs r \<noteq> [] \<and> follows src target bs (last (sigs r)) (c + length (sigs r)) (Suc k) rs"
  using follows_ConsD(5,6) by blast

lemma follows_requests:
  "follows src target bs cursor c k rs \<Longrightarrow> j < length rs \<Longrightarrow>
     limit (rs ! j) = min bs (target - (c + collectedBefore rs j)) \<and>
     c + collectedBefore rs j < target \<and>
     before (rs ! j) = (if j = 0 then cursor else last (sigs (rs ! (j - 1)))) \<and>
     sigs (rs ! j) = src (k + j) (before (rs ! j)) (limit (rs ! j))"
proof (induction rs arbitrary: cursor c k j)
  case Nil
  then show ?case by simp
next
  case (Cons r rs)
  show ?case
  proof (cases j)
    case 0
    with follows_ConsD(1-4) [OF Cons.prems(1)] show ?thesis
      by (simp add: collectedBefore_0)
  next
    case (Suc i)
    with Cons.prems have i: "i < length rs" and ne: "rs \<noteq> []" by auto
    from follows_tail [OF Cons.prems(1) ne]
    have t: "follows src target bs (last (sigs r)) (c + length (sigs r)) (Suc k) rs" by simp
    from Cons.IH [OF t i] Suc show ?thesis
      by (cases i) (simp_all add: collectedBefore_Cons add.assoc)
  qed
qed

lemma follows_nonempty_pages:
  "follows src target bs cursor c k rs \<Longrightarrow> Suc j < length rs \<Longrightarrow> sigs (rs ! j) \<noteq> []"
proof (induction rs arbitrary: cursor c k j)
  case Nil
  then show ?case by simp
next
  case (Cons r rs)
  from Cons.prems(2) have ne: "rs \<noteq> []" by auto
  note t = follows_tail [OF Cons.prems(1) ne]
  show ?case
  proof (cases j)
    case 0
    with t show ?thesis by simp
  next
    case (Suc i)
    with Cons.prems(2) have "Suc i < length rs" by simp
    from Cons.IH [OF conjunct2 [OF t] this] Suc show ?thesis by simp
  qed
qed

lemma follows_stop:
  "follows src target bs cursor c k rs \<Longrightarrow>
     target \<le> c + length (concat (map sigs rs)) \<or> (rs \<noteq> [] \<and> sigs (last rs) = [])"
proof (induction rs arbitrary: cursor c k)
  case Nil
  then show ?case by simp
next
  case (Cons r rs)
  note d = follows_ConsD [OF Cons.prems]
  show ?case
  proof (cases "sigs r = []")
    case True
    with d(5) show ?thesis by simp
  next
    case False
    from Cons.IH [OF d(6) [OF False]] show ?thesis
      by (auto simp: add.assoc)
  qed
qed

lemma follows_bounded:
  "follows src target bs cursor c k rs \<Longrightarrow> honoursLimit src \<Longrightarrow> c \<le> target \<Longrightarrow>
     c + length (concat (map sigs rs)) \<le> target"
proof (induction rs arbitrary: cursor c k)
  case Nil
  then show ?case by simp
next
  case (Cons r rs)
  note d = follows_ConsD [OF Cons.prems(1)]
  from Cons.prems(2) have "length (src k cursor (min bs (target - c))) \<le> min bs (target - c)"
    unfolding honoursLimit_def by blast
  with d(4) have len: "length (sigs r) \<le> target - c" by simp
  show ?case
  proof (cases "sigs r = []")
    case True
    with d(5) Cons.prems(3) show ?thesis by simp
  next
    case False
    from d(1) len have "c + length (sigs r) \<le> target" by simp
    from Cons.IH [OF d(6) [OF False] Cons.prems(2) this] show ?thesis
      by (simp add: add.assoc)
  qed
qed

text \<open>
  C6, as amended. Whatever the ledger answers, the loop ends, and of its requests the
  following holds. Each asks for the smaller of the page size and what is still missing of
  the target; the first uses the start cursor and each later one the last signature of the
  page before; the collected list is the pages in order; every page but the last is not
  empty, and after the last request either the target is reached or the page came back
  empty. For a ledger that returns no more signatures than a request asks for, and only
  for such a ledger, the collected list never exceeds the target: it has exactly the
  target's length, unless the history ran out, in which case it holds the part collected
  until then.
\<close>

theorem collect_paginates:
  assumes "collect getSignatures startCursor targetCount pageSize = (fetched, requests)"
  shows "fetched = concat (map sigs requests) \<and>
    (\<forall>k. k < length requests \<longrightarrow>
       limit (requests ! k) = min pageSize (targetCount - collectedBefore requests k) \<and>
       collectedBefore requests k < targetCount \<and>
       before (requests ! k) = (if k = 0 then startCursor else last (sigs (requests ! (k - 1)))) \<and>
       sigs (requests ! k) = getSignatures k (before (requests ! k)) (limit (requests ! k))) \<and>
    (\<forall>k. Suc k < length requests \<longrightarrow> sigs (requests ! k) \<noteq> []) \<and>
    (targetCount \<le> length fetched \<or> (requests \<noteq> [] \<and> sigs (last requests) = [])) \<and>
    (honoursLimit getSignatures \<longrightarrow>
       length fetched \<le> targetCount \<and>
       (length fetched = targetCount \<or> (requests \<noteq> [] \<and> sigs (last requests) = [])))"
proof -
  from fetchLoop_follows [of getSignatures targetCount pageSize startCursor "[]" "[]"] assms
  have f: "fetched = concat (map sigs requests)"
    and fol: "follows getSignatures targetCount pageSize startCursor 0 0 requests"
    by (auto simp: collect_def)
  have req: "\<forall>k. k < length requests \<longrightarrow>
       limit (requests ! k) = min pageSize (targetCount - collectedBefore requests k) \<and>
       collectedBefore requests k < targetCount \<and>
       before (requests ! k) = (if k = 0 then startCursor else last (sigs (requests ! (k - 1)))) \<and>
       sigs (requests ! k) = getSignatures k (before (requests ! k)) (limit (requests ! k))"
    using follows_requests [OF fol] by simp
  have pages: "\<forall>k. Suc k < length requests \<longrightarrow> sigs (requests ! k) \<noteq> []"
    using follows_nonempty_pages [OF fol] by blast
  have stop: "targetCount \<le> length fetched \<or> (requests \<noteq> [] \<and> sigs (last requests) = [])"
    using follows_stop [OF fol] f by simp
  have bound: "length fetched \<le> targetCount" if "honoursLimit getSignatures"
    using follows_bounded [OF fol that] f by simp
  from f req pages stop bound show ?thesis
    by (metis le_antisym)
qed

theorem collect_paginates_witness:
  "collect historyLedger ''start'' 4 3 =
     ([''s5'', ''s4'', ''s3'', ''s2''],
      [\<lparr>before = ''start'', limit = 3, sigs = [''s5'', ''s4'', ''s3'']\<rparr>,
       \<lparr>before = ''s3'', limit = 1, sigs = [''s2'']\<rparr>]) \<and>
   honoursLimit historyLedger \<and>
   length [''s5'', ''s4'', ''s3'', ''s2''] \<le> (4 :: nat) \<and>
   collect historyLedger ''start'' 10 2 =
     ([''s5'', ''s4'', ''s3'', ''s2'', ''s1''],
      [\<lparr>before = ''start'', limit = 2, sigs = [''s5'', ''s4'']\<rparr>,
       \<lparr>before = ''s4'', limit = 2, sigs = [''s3'', ''s2'']\<rparr>,
       \<lparr>before = ''s2'', limit = 2, sigs = [''s1'']\<rparr>,
       \<lparr>before = ''s1'', limit = 2, sigs = []\<rparr>])"
proof -
  have a: "collect historyLedger ''start'' 4 3 =
     ([''s5'', ''s4'', ''s3'', ''s2''],
      [\<lparr>before = ''start'', limit = 3, sigs = [''s5'', ''s4'', ''s3'']\<rparr>,
       \<lparr>before = ''s3'', limit = 1, sigs = [''s2'']\<rparr>])"
    by (simp add: collect_def fetchLoop.simps Let_def historyLedger_def history_def)
  have b: "collect historyLedger ''start'' 10 2 =
     ([''s5'', ''s4'', ''s3'', ''s2'', ''s1''],
      [\<lparr>before = ''start'', limit = 2, sigs = [''s5'', ''s4'']\<rparr>,
       \<lparr>before = ''s4'', limit = 2, sigs = [''s3'', ''s2'']\<rparr>,
       \<lparr>before = ''s2'', limit = 2, sigs = [''s1'']\<rparr>,
       \<lparr>before = ''s1'', limit = 2, sigs = []\<rparr>])"
    by (simp add: collect_def fetchLoop.simps Let_def historyLedger_def history_def)
  have h: "honoursLimit historyLedger"
    by (simp add: honoursLimit_def historyLedger_def)
  from collect_paginates [OF a] h
  have "length [''s5'', ''s4'', ''s3'', ''s2''] \<le> (4 :: nat)"
    by blast
  with a b h show ?thesis by blast
qed

text \<open>
  C6 as stated, for every signature source, does not hold: the loop appends the whole page
  it receives (\<^verbatim>\<open>fetchedSignatures.push(...sigs)\<close>) and never cuts the collected
  list, so a source that ignores the limit of a request makes the collected list longer
  than the target. Asked for three of a target of four, this ledger answers with its five
  signatures, and the loop ends with all five.
\<close>

theorem collect_paginates_counterexample:
  "collect greedyLedger ''start'' 4 3 =
     ([''s5'', ''s4'', ''s3'', ''s2'', ''s1''],
      [\<lparr>before = ''start'', limit = 3, sigs = [''s5'', ''s4'', ''s3'', ''s2'', ''s1'']\<rparr>]) \<and>
   length (fst (collect greedyLedger ''start'' 4 3)) = 5 \<and>
   \<not> length (fst (collect greedyLedger ''start'' 4 3)) \<le> 4 \<and>
   \<not> honoursLimit greedyLedger"
proof -
  have a: "collect greedyLedger ''start'' 4 3 =
     ([''s5'', ''s4'', ''s3'', ''s2'', ''s1''],
      [\<lparr>before = ''start'', limit = 3, sigs = [''s5'', ''s4'', ''s3'', ''s2'', ''s1'']\<rparr>])"
    by (simp add: collect_def fetchLoop.simps Let_def greedyLedger_def history_def)
  have "length (greedyLedger 0 ''start'' 3) = 5"
    by (simp add: greedyLedger_def history_def)
  then have "\<not> length (greedyLedger 0 ''start'' 3) \<le> 3"
    by simp
  then have h: "\<not> honoursLimit greedyLedger"
    unfolding honoursLimit_def by blast
  from a h show ?thesis by simp
qed

section \<open>Properties of the batch loop\<close>

lemma set_resolvedOnly: "set (resolvedOnly parsed) = {tx. Resolved tx \<in> set parsed}"
  by (induction parsed rule: resolvedOnly.induct) auto

lemma set_pumpCAs:
  "set (pumpCAs parsed) =
     {tx. Resolved tx \<in> set parsed \<and> timestamp tx \<noteq> None \<and> endsWith (tokenAddress tx) ''pump''}"
  by (auto simp: pumpCAs_def validMints_def set_resolvedOnly)

lemma updateOldest_append:
  "updateOldest oldest (xs @ ys) = updateOldest (updateOldest oldest xs) ys"
  by (induction xs arbitrary: oldest) auto

lemma oldest_batchStep:
  "oldestPumpToken (batchStep n i agg parsed) = updateOldest (oldestPumpToken agg) (pumpCAs parsed)"
  by (simp add: batchStep_def Let_def)

lemma oldest_batchLoop:
  "oldestPumpToken (batchLoop n i agg batches) =
     updateOldest (oldestPumpToken agg) (concat (map pumpCAs batches))"
  by (induction batches arbitrary: i agg) (simp_all add: oldest_batchStep updateOldest_append)

lemma updateOldest_None_iff:
  "updateOldest oldest txs = None \<longleftrightarrow> oldest = None \<and> (\<forall>tx \<in> set txs. timestamp tx = None)"
  by (induction txs arbitrary: oldest) (auto split: option.splits)

lemma updateOldest_lower:
  "updateOldest oldest txs = Some found \<Longrightarrow>
     (\<forall>old. oldest = Some old \<longrightarrow> oldTimestamp found \<le> oldTimestamp old) \<and>
     (\<forall>tx \<in> set txs. \<forall>t. timestamp tx = Some t \<longrightarrow> oldTimestamp found \<le> t)"
proof (induction txs arbitrary: oldest)
  case Nil
  then show ?case by simp
next
  case (Cons tx txs)
  from Cons.IH [OF Cons.prems [simplified]] show ?case
    by (auto split: option.splits if_splits)
qed

lemma updateOldest_member:
  "updateOldest oldest txs = Some found \<Longrightarrow>
     oldest = Some found \<or>
     (\<exists>tx \<in> set txs. timestamp tx = Some (oldTimestamp found) \<and> tokenAddress tx = oldTokenAddress found)"
proof (induction txs arbitrary: oldest)
  case Nil
  then show ?case by simp
next
  case (Cons tx txs)
  from Cons.IH [OF Cons.prems [simplified]] show ?case
    by (auto split: option.splits if_splits)
qed

lemma set_all_pumpCAs:
  "set (concat (map pumpCAs batches)) = {tx. matchingRecord batches tx}"
  by (auto simp: set_pumpCAs matchingRecord_def)

lemma last_processBatches:
  "last (processBatches batches) =
     (case oldestPumpToken (batchLoop (length batches) 0 initialAggregate batches) of
        Some old \<Rightarrow> FirstPumpToken (oldTokenAddress old) (oldTimestamp old)
      | None \<Rightarrow> NoPumpTokenFound)"
  by (simp add: processBatches_def finalReport_def Let_def split: option.splits)

lemma oldest_run:
  "oldestPumpToken (batchLoop n 0 initialAggregate batches) =
     updateOldest None (concat (map pumpCAs batches))"
  by (simp add: oldest_batchLoop initialAggregate_def)

lemma oldest_cases:
  "((\<forall>tx. \<not> matchingRecord batches tx) \<longrightarrow> last (processBatches batches) = NoPumpTokenFound) \<and>
   ((\<exists>tx. matchingRecord batches tx) \<longrightarrow>
      (\<exists>tx t. matchingRecord batches tx \<and> timestamp tx = Some t \<and>
         last (processBatches batches) = FirstPumpToken (tokenAddress tx) t \<and>
         (\<forall>tx' t'. matchingRecord batches tx' \<and> timestamp tx' = Some t' \<longrightarrow> t \<le> t')))"
proof -
  define pumps where "pumps = concat (map pumpCAs batches)"
  have pumps: "set pumps = {tx. matchingRecord batches tx}"
    unfolding pumps_def by (rule set_all_pumpCAs)
  have report: "last (processBatches batches) =
     (case updateOldest None pumps of
        Some old \<Rightarrow> FirstPumpToken (oldTokenAddress old) (oldTimestamp old)
      | None \<Rightarrow> NoPumpTokenFound)"
    unfolding pumps_def by (simp add: last_processBatches oldest_run)
  have absent: "last (processBatches batches) = NoPumpTokenFound"
    if none: "\<forall>tx. \<not> matchingRecord batches tx"
  proof -
    from none pumps have "set pumps = {}" by simp
    then have "updateOldest None pumps = None"
      by (simp add: updateOldest_None_iff)
    then show ?thesis by (simp add: report)
  qed
  have present: "\<exists>tx t. matchingRecord batches tx \<and> timestamp tx = Some t \<and>
         last (processBatches batches) = FirstPumpToken (tokenAddress tx) t \<and>
         (\<forall>tx' t'. matchingRecord batches tx' \<and> timestamp tx' = Some t' \<longrightarrow> t \<le> t')"
    if some: "\<exists>tx. matchingRecord batches tx"
  proof -
    from some pumps obtain tx0 where tx0: "tx0 \<in> set pumps" "timestamp tx0 \<noteq> None"
      by (auto simp: matchingRecord_def)
    then have "updateOldest None pumps \<noteq> None"
      unfolding updateOldest_None_iff by auto
    then obtain found where found: "updateOldest None pumps = Some found"
      by blast
    from updateOldest_member [OF found] obtain tx
      where tx: "tx \<in> set pumps" "timestamp tx = Some (oldTimestamp found)"
        "tokenAddress tx = oldTokenAddress found"
      by blast
    from updateOldest_lower [OF found]
    have low: "\<forall>tx' \<in> set pumps. \<forall>t'. timestamp tx' = Some t' \<longrightarrow> oldTimestamp found \<le> t'"
      by blast
    have "matchingRecord batches tx"
      using tx(1) pumps by simp
    moreover have "last (processBatches batches) = FirstPumpToken (tokenAddress tx) (oldTimestamp found)"
      using found tx(3) by (simp add: report)
    moreover have "\<forall>tx' t'. matchingRecord batches tx' \<and> timestamp tx' = Some t' \<longrightarrow> oldTimestamp found \<le> t'"
      using low pumps by auto
    ultimately show ?thesis
      using tx(2) by blast
  qed
  from absent present show ?thesis by blast
qed

lemmas run_defs = processBatches_def batchStep_def initialAggregate_def
      validMints_def pumpCAs_def skippedCount_def endsWith_def getTime_def finalReport_def

lemmas rec_defs = recA_def recB_def recC_def

text \<open>
  C1. After all batches are processed, the last thing reported is the globally oldest
  matching record: a resolved record with a present timestamp whose token address ends
  with \<open>pump\<close>, and no such record of any batch has an earlier timestamp. When no
  batch holds such a record, the report is the explicit "none found" message. The loop
  replaces the current oldest record only by one with a strictly earlier timestamp.
\<close>

theorem oldest_reported:
  "((\<forall>tx. \<not> matchingRecord batches tx) \<longrightarrow> last (processBatches batches) = NoPumpTokenFound) \<and>
   ((\<exists>tx. matchingRecord batches tx) \<longrightarrow>
      (\<exists>tx t. matchingRecord batches tx \<and> timestamp tx = Some t \<and>
         last (processBatches batches) = FirstPumpToken (tokenAddress tx) t \<and>
         (\<forall>tx' t'. matchingRecord batches tx' \<and> timestamp tx' = Some t' \<longrightarrow> t \<le> t'))) \<and>
   (\<forall>old tx t. timestamp tx = Some t \<longrightarrow>
      updateOldest (Some old) [tx] =
        (if t < oldTimestamp old then Some (OldestPumpToken (tokenAddress tx) t) else Some old))"
  using oldest_cases [of batches] by simp

theorem oldest_reported_witness:
  "matchingRecord exampleBatches
      \<lparr>signature = ''s3'', tokenAddress = ''Cpump'', timestamp = Some 1000\<rparr> \<and>
   last (processBatches exampleBatches) = FirstPumpToken ''Cpump'' 1000 \<and>
   last (processBatches [[Skipped, Null]]) = NoPumpTokenFound"
proof -
  have m: "matchingRecord exampleBatches
      \<lparr>signature = ''s3'', tokenAddress = ''Cpump'', timestamp = Some 1000\<rparr>"
    by (simp add: matchingRecord_def exampleBatches_def endsWith_def)
  have n: "\<forall>tx. \<not> matchingRecord [[Skipped, Null]] tx"
    by (simp add: matchingRecord_def)
  have r: "last (processBatches exampleBatches) = FirstPumpToken ''Cpump'' 1000"
    by (simp add: exampleBatches_def run_defs)
  from oldest_reported [of "[[Skipped, Null]]"] n
  have "last (processBatches [[Skipped, Null]]) = NoPumpTokenFound" by blast
  moreover from oldest_reported [of exampleBatches] m
  have "\<exists>tx t. matchingRecord exampleBatches tx \<and> timestamp tx = Some t \<and>
         last (processBatches exampleBatches) = FirstPumpToken (tokenAddress tx) t" by blast
  ultimately show ?thesis using m r by blast
qed

lemma matchingRecord_two:
  "matchingRecord [b1, b2] tx \<longleftrightarrow> tx \<in> set (filter isPumpRecord (resolvedOnly (b1 @ b2)))"
  by (auto simp: matchingRecord_def isPumpRecord_def set_resolvedOnly)

text \<open>
  C7, as amended. Three matching records with timestamps \<open>T2 < T1 < T3\<close>, spread over two
  batches in any way and returned in any completion order (other outcomes may sit between
  them): the oldest record finally reported is the one with timestamp \<open>T2\<close>, the
  earliest of the three.
\<close>

theorem oldest_of_three:
  assumes recs: "mset (filter isPumpRecord (resolvedOnly (b1 @ b2))) = {#r1, r2, r3#}"
    and t1: "timestamp r1 = Some T1" and t2: "timestamp r2 = Some T2" and t3: "timestamp r3 = Some T3"
    and order: "T2 < T1" "T1 < T3"
  shows "last (processBatches [b1, b2]) = FirstPumpToken (tokenAddress r2) T2"
proof -
  have "set (filter isPumpRecord (resolvedOnly (b1 @ b2))) = set_mset {#r1, r2, r3#}"
    using recs by (metis set_mset_mset)
  then have m: "matchingRecord [b1, b2] tx \<longleftrightarrow> tx = r1 \<or> tx = r2 \<or> tx = r3" for tx
    unfolding matchingRecord_two by auto
  then have "\<exists>tx. matchingRecord [b1, b2] tx" by blast
  with oldest_cases [of "[b1, b2]"] obtain tx t
    where tx: "matchingRecord [b1, b2] tx" "timestamp tx = Some t"
      "last (processBatches [b1, b2]) = FirstPumpToken (tokenAddress tx) t"
      "\<forall>tx' t'. matchingRecord [b1, b2] tx' \<and> timestamp tx' = Some t' \<longrightarrow> t \<le> t'"
    by blast
  from tx(4) m t2 have "t \<le> T2" by blast
  with tx(1,2) m t1 t2 t3 order have "tx = r2" by auto
  with tx(2,3) t2 show ?thesis by simp
qed

text \<open>
  C7 as stated names \<open>T1\<close>, the middle timestamp, as the oldest. On this run the report
  is the record with timestamp \<open>T2 = 1000\<close>, not the one with \<open>T1 = 2000\<close>.
\<close>

theorem oldest_of_three_counterexample:
  "timestamp recB = Some 1000 \<and> timestamp recA = Some 2000 \<and> timestamp recC = Some 3000 \<and>
   (1000 :: int) < 2000 \<and> (2000 :: int) < 3000 \<and>
   last (processBatches [[Resolved recC, Resolved recA], [Skipped, Resolved recB]])
     = FirstPumpToken ''Bpump'' 1000 \<and>
   last (processBatches [[Resolved recC, Resolved recA], [Skipped, Resolved recB]])
     \<noteq> FirstPumpToken ''Apump'' 2000"
  by (simp add: rec_defs run_defs)

theorem oldest_of_three_witness:
  "mset (filter isPumpRecord (resolvedOnly ([Resolved recA, Null] @ [Resolved recC, Resolved recB])))
     = {#recA, recB, recC#} \<and>
   last (processBatches [[Resolved recA, Null], [Resolved recC, Resolved recB]])
     = FirstPumpToken (tokenAddress recB) 1000"
proof -
  have h: "mset (filter isPumpRecord (resolvedOnly ([Resolved recA, Null] @ [Resolved recC, Resolved recB])))
     = {#recA, recB, recC#}"
    by (simp add: isPumpRecord_def rec_defs endsWith_def)
  from oldest_of_three [OF h, of 2000 1000 3000] h show ?thesis
    by (simp add: rec_defs)
qed

lemma resolvedOnly_filter:
  "filter (\<lambda>tx. timestamp tx \<noteq> None) (resolvedOnly (filter (\<lambda>r. \<not> withoutTimestamp r) parsed))
   = filter (\<lambda>tx. timestamp tx \<noteq> None) (resolvedOnly parsed)"
  by (induction parsed rule: resolvedOnly.induct) (auto simp: withoutTimestamp_def)

lemma validMints_filter:
  "validMints (filter (\<lambda>r. \<not> withoutTimestamp r) parsed) = validMints parsed"
  unfolding validMints_def resolvedOnly_filter ..

lemma skippedCount_filter:
  "skippedCount (filter (\<lambda>r. \<not> withoutTimestamp r) parsed) = skippedCount parsed"
proof -
  have "(r = Skipped \<and> \<not> withoutTimestamp r) = (r = Skipped)" for r
    by (auto simp: withoutTimestamp_def)
  then show ?thesis
    by (simp add: skippedCount_def conj_commute)
qed

lemma batchStep_filter:
  "batchStep n i agg (filter (\<lambda>r. \<not> withoutTimestamp r) parsed) = batchStep n i agg parsed"
  by (simp add: batchStep_def pumpCAs_def validMints_filter skippedCount_filter)

lemma batchLoop_filter:
  "batchLoop n i agg (map (filter (\<lambda>r. \<not> withoutTimestamp r)) batches) = batchLoop n i agg batches"
  by (induction batches arbitrary: i agg) (simp_all add: batchStep_filter)

text \<open>
  C10. Outcomes that resolved to a token address but have no timestamp leave no trace:
  deleting them from every batch changes nothing of what is printed or written, neither a
  batch file, nor a count (valid, skipped, pump), nor the oldest record of a batch or of
  the run. The program reports no count of failed outcomes at all.
\<close>

theorem absent_timestamp_invisible:
  "processBatches (map (filter (\<lambda>r. \<not> withoutTimestamp r)) batches) = processBatches batches"
  by (simp add: processBatches_def batchLoop_filter)

theorem absent_timestamp_invisible_witness:
  "processBatches
     [[Resolved \<lparr>signature = ''s2'', tokenAddress = ''Bpump'', timestamp = None\<rparr>, Skipped,
       Resolved recA]]
   = processBatches [[Skipped, Resolved recA]]"
  using absent_timestamp_invisible
    [of "[[Resolved \<lparr>signature = ''s2'', tokenAddress = ''Bpump'', timestamp = None\<rparr>, Skipped,
           Resolved recA]]"]
  by (simp add: withoutTimestamp_def rec_defs)

end
